theory Spec2Isabelle
  imports Complex_Main "HOL-Library.AList" "HOL-Library.Multiset"
begin

section \<open>Common data\<close>

text \<open>
  A URL is a Python \<^verbatim>\<open>str\<close>. It is modelled as an Isabelle string in which
  every \<^typ>\<open>char\<close> is one code point below 256. A Python \<^verbatim>\<open>dict\<close> keeps its keys
  in insertion order and that order is visible in the lists the analyzer returns, so
  the link structure is an association list: \<^const>\<open>map_of\<close> looks a key up and
  \<^const>\<open>AList.update\<close> is item assignment (an existing key keeps its place, a new
  key goes to the end). A well-formed dict has distinct keys.

  Exceptions are values: a computation that can raise returns
  \<open>py_exception + 'a\<close>, with \<open>Inl\<close> for the exception.
\<close>

type_synonym url = string

type_synonym link_graph = "(url \<times> url list) list"

datatype py_exception =
    ZeroDivisionError
  | KeyError
  | ValueError
  | External string

text \<open>
  Python's true division \<^verbatim>\<open>x / n\<close> by an integer count. Scores and averages
  are Python floats; they are modelled as exact rationals (rounding is not modelled).
\<close>

definition py_truediv :: "rat \<Rightarrow> nat \<Rightarrow> py_exception + rat" where
  "py_truediv x n = (if n = 0 then Inl ZeroDivisionError else Inr (x / of_nat n))"

section \<open>LinkAnalyzer\<close>

subsection \<open>Incoming-link counts (\<^verbatim>\<open>find_orphaned_pages\<close>, \<^verbatim>\<open>find_authorities\<close>)\<close>

text \<open>
  \<^verbatim>\<open>
  incoming_links = {url: 0 for url in self.link_structure}
  for _, links in self.link_structure.items():
      for link in links:
          if link in incoming_links:
              incoming_links[link] += 1
  \<close>
\<close>

fun count_links :: "url list \<Rightarrow> (url \<times> nat) list \<Rightarrow> (url \<times> nat) list" where
  "count_links [] incoming = incoming"
| "count_links (link # links) incoming =
     count_links links
       (case map_of incoming link of
          Some c \<Rightarrow> AList.update link (c + 1) incoming
        | None \<Rightarrow> incoming)"

fun count_items :: "link_graph \<Rightarrow> (url \<times> nat) list \<Rightarrow> (url \<times> nat) list" where
  "count_items [] incoming = incoming"
| "count_items ((_, links) # items) incoming = count_items items (count_links links incoming)"

definition incoming_links :: "link_graph \<Rightarrow> (url \<times> nat) list" where
  "incoming_links link_structure =
     count_items link_structure (map (\<lambda>(url, _). (url, 0)) link_structure)"

definition find_orphaned_pages :: "link_graph \<Rightarrow> url list" where
  "find_orphaned_pages link_structure =
     map fst (filter (\<lambda>(url, count). count = 0) (incoming_links link_structure))"

definition find_authorities :: "link_graph \<Rightarrow> py_exception + url list" where
  "find_authorities link_structure =
     (let incoming = incoming_links link_structure in
      if incoming = [] then Inr []
      else
        case py_truediv (of_nat (sum_list (map snd incoming))) (length incoming) of
          Inl e \<Rightarrow> Inl e
        | Inr avg_incoming_links \<Rightarrow>
            let threshold = max (avg_incoming_links * 2) 5
            in Inr (map fst (filter (\<lambda>(url, count). of_nat count > threshold) incoming)))"

subsection \<open>Hubs\<close>

text \<open>
  \<^verbatim>\<open>
  if not self.link_structure: return []
  outgoing_counts = [len(links) for links in self.link_structure.values()]
  avg_outgoing_links = sum(outgoing_counts) / len(self.link_structure)
  threshold = max(avg_outgoing_links * 2, 10)
  return [url for url, links in self.link_structure.items() if len(links) > threshold]
  \<close>
\<close>

definition find_hubs :: "link_graph \<Rightarrow> py_exception + url list" where
  "find_hubs link_structure =
     (if link_structure = [] then Inr []
      else
        let outgoing_counts = map (\<lambda>(_, links). length links) link_structure in
        case py_truediv (of_nat (sum_list outgoing_counts)) (length link_structure) of
          Inl e \<Rightarrow> Inl e
        | Inr avg_outgoing_links \<Rightarrow>
            let threshold = max (avg_outgoing_links * 2) 10
            in Inr (map fst
                 (filter (\<lambda>(url, links). of_nat (length links) > threshold) link_structure)))"

subsection \<open>PageRank\<close>

text \<open>
  The score dict is only read by key and returned as a mapping, so it is a map
  \<open>url \<rightharpoonup> rat\<close>. A dict comprehension \<^verbatim>\<open>{url: e for url in d}\<close> evaluates
  \<^verbatim>\<open>e\<close> once per key: over no keys, \<^verbatim>\<open>e\<close> is never evaluated.
\<close>

type_synonym scores = "url \<rightharpoonup> rat"

fun dict_comp :: "url list \<Rightarrow> (py_exception + rat) \<Rightarrow> py_exception + scores" where
  "dict_comp [] e = Inr Map.empty"
| "dict_comp (url # urls) e =
     (case e of
        Inl ex \<Rightarrow> Inl ex
      | Inr v \<Rightarrow>
          (case dict_comp urls e of
             Inl ex \<Rightarrow> Inl ex
           | Inr d \<Rightarrow> Inr (d(url \<mapsto> v))))"

definition damping_factor :: rat where
  "damping_factor = 0.85"

definition iterations :: nat where
  "iterations = 10"

text \<open>
  \<^verbatim>\<open>
  for target_url in unique_links:
      if target_url in new_scores: new_scores[target_url] += outbound_weight
      else:                        new_scores[target_url] = outbound_weight
  \<close>
\<close>

fun add_weight :: "rat \<Rightarrow> url list \<Rightarrow> scores \<Rightarrow> scores" where
  "add_weight outbound_weight [] new_scores = new_scores"
| "add_weight outbound_weight (target_url # targets) new_scores =
     add_weight outbound_weight targets
       (case new_scores target_url of
          Some v \<Rightarrow> new_scores(target_url \<mapsto> v + outbound_weight)
        | None \<Rightarrow> new_scores(target_url \<mapsto> outbound_weight))"

text \<open>
  \<^verbatim>\<open>set(links)\<close> is enumerated as \<^term>\<open>remdups links\<close>: each distinct target once
  (Python fixes no order for a set; the resulting mapping does not depend on it).
\<close>

fun distribute :: "scores \<Rightarrow> link_graph \<Rightarrow> scores \<Rightarrow> py_exception + scores" where
  "distribute scores [] new_scores = Inr new_scores"
| "distribute scores ((source_url, links) # items) new_scores =
     (let unique_links = remdups links in
      if unique_links = [] then distribute scores items new_scores
      else
        case scores source_url of
          None \<Rightarrow> Inl KeyError
        | Some s \<Rightarrow>
            (case py_truediv (s * damping_factor) (length unique_links) of
               Inl ex \<Rightarrow> Inl ex
             | Inr outbound_weight \<Rightarrow>
                 distribute scores items (add_weight outbound_weight unique_links new_scores)))"

fun iterate :: "nat \<Rightarrow> link_graph \<Rightarrow> scores \<Rightarrow> py_exception + scores" where
  "iterate 0 link_structure scores = Inr scores"
| "iterate (Suc n) link_structure scores =
     (case dict_comp (map fst link_structure)
             (py_truediv (1 - damping_factor) (length link_structure)) of
        Inl ex \<Rightarrow> Inl ex
      | Inr new_scores \<Rightarrow>
          (case distribute scores link_structure new_scores of
             Inl ex \<Rightarrow> Inl ex
           | Inr new_scores' \<Rightarrow> iterate n link_structure new_scores'))"

definition analyze_page_rank :: "link_graph \<Rightarrow> py_exception + scores" where
  "analyze_page_rank link_structure =
     (let total_pages = length link_structure in
      case dict_comp (map fst link_structure) (py_truediv 1 total_pages) of
        Inl ex \<Rightarrow> Inl ex
      | Inr scores \<Rightarrow> iterate iterations link_structure scores)"

subsection \<open>The end-to-end scenario graph\<close>

definition scenario_graph :: link_graph where
  "scenario_graph =
     [(''http://x.test/'', [''http://x.test/a'', ''http://x.test/b'']),
      (''http://x.test/a'', [''http://x.test/b'']),
      (''http://x.test/b'', [])]"

definition three_cycle :: link_graph where
  "three_cycle = [(''A'', [''B'']), (''B'', [''C'']), (''C'', [''A''])]"

subsection \<open>The analyses as the specification words them\<close>

text \<open>
  PageRank by the specification's wording. \<open>N\<close> is the number of keys. Every key starts
  at \<open>1/N\<close>. One iteration gives every key the base rank \<open>(1 - 0.85)/N\<close>; every source
  with at least one distinct target adds \<open>score[source] * 0.85 / |distinct targets|\<close> to
  each distinct target; a target that is no key gets an entry made of what it receives;
  a source without targets adds nothing. Ten iterations.
\<close>

definition spec_num_keys :: "link_graph \<Rightarrow> nat" where
  "spec_num_keys g = card (set (map fst g))"

definition spec_base_rank :: "link_graph \<Rightarrow> rat" where
  "spec_base_rank g = (1 - 0.85) / of_nat (spec_num_keys g)"

definition spec_share :: "scores \<Rightarrow> url \<times> url list \<Rightarrow> url \<Rightarrow> rat" where
  "spec_share score item t =
     (case item of (source, links) \<Rightarrow>
        if t \<in> set links
        then (case score source of Some s \<Rightarrow> s * 0.85 / of_nat (card (set links)) | None \<Rightarrow> 0)
        else 0)"

definition spec_received :: "link_graph \<Rightarrow> scores \<Rightarrow> url \<Rightarrow> rat" where
  "spec_received g score t = sum_list (map (\<lambda>item. spec_share score item t) g)"

definition spec_is_target :: "link_graph \<Rightarrow> url \<Rightarrow> bool" where
  "spec_is_target g t = list_ex (\<lambda>item. t \<in> set (snd item)) g"

definition spec_rank_step :: "link_graph \<Rightarrow> scores \<Rightarrow> scores" where
  "spec_rank_step g score =
     (\<lambda>t. if t \<in> set (map fst g) then Some (spec_base_rank g + spec_received g score t)
          else if spec_is_target g t then Some (spec_received g score t)
          else None)"

definition spec_initial_rank :: "link_graph \<Rightarrow> scores" where
  "spec_initial_rank g =
     (\<lambda>u. if u \<in> set (map fst g) then Some (1 / of_nat (spec_num_keys g)) else None)"

definition spec_page_rank :: "link_graph \<Rightarrow> scores" where
  "spec_page_rank g = (spec_rank_step g ^^ 10) (spec_initial_rank g)"

text \<open>
  Hubs by the specification's wording: the keys whose raw outbound-list length is
  strictly greater than \<open>max (2 \<times> average outbound length over all keys, 10)\<close>.
\<close>

definition spec_average_outbound :: "link_graph \<Rightarrow> rat" where
  "spec_average_outbound g =
     of_nat (sum_list (map (length \<circ> snd) g)) / of_nat (spec_num_keys g)"

definition spec_is_hub :: "link_graph \<Rightarrow> url \<Rightarrow> bool" where
  "spec_is_hub g u =
     (case map_of g u of
        None \<Rightarrow> False
      | Some links \<Rightarrow> of_nat (length links) > max (2 * spec_average_outbound g) 10)"

definition hub_graph :: link_graph where
  "hub_graph =
     [(''h'', [''a'', ''b'', ''a'', ''b'', ''a'', ''b'', ''a'', ''b'', ''a'', ''b'', ''a'', ''x'']),
      (''a'', [''h'']),
      (''b'', [])]"

section \<open>URL handling\<close>

subsection \<open>Python string operations\<close>

definition is_ascii_alpha :: "char \<Rightarrow> bool" where
  "is_ascii_alpha c =
     (let n = (of_char c :: nat) in (65 \<le> n \<and> n \<le> 90) \<or> (97 \<le> n \<and> n \<le> 122))"

definition is_ascii_digit :: "char \<Rightarrow> bool" where
  "is_ascii_digit c = (let n = (of_char c :: nat) in 48 \<le> n \<and> n \<le> 57)"

text \<open>
  \<^verbatim>\<open>str.isalnum\<close> on one code point below 256: the ASCII letters and digits, and
  the Latin-1 letters and numeric signs.
\<close>

definition isalnum :: "char \<Rightarrow> bool" where
  "isalnum c =
     (let n = (of_char c :: nat) in
      is_ascii_alpha c \<or> is_ascii_digit c
      \<or> n \<in> {0xAA, 0xB2, 0xB3, 0xB5, 0xB9, 0xBA, 0xBC, 0xBD, 0xBE}
      \<or> (0xC0 \<le> n \<and> n \<le> 0xD6) \<or> (0xD8 \<le> n \<and> n \<le> 0xF6) \<or> 0xF8 \<le> n)"

definition ascii_lower :: "char \<Rightarrow> char" where
  "ascii_lower c =
     (let n = (of_char c :: nat) in if 65 \<le> n \<and> n \<le> 90 then char_of (n + 32) else c)"

text \<open>\<^verbatim>\<open>s.split(c, 1)\<close> for a character \<^verbatim>\<open>c\<close> that occurs in \<^verbatim>\<open>s\<close>.\<close>

definition split_once :: "char \<Rightarrow> string \<Rightarrow> string \<times> string" where
  "split_once c s = (takeWhile (\<lambda>x. x \<noteq> c) s, drop 1 (dropWhile (\<lambda>x. x \<noteq> c) s))"

text \<open>\<^verbatim>\<open>s.rstrip(c)\<close> for one character.\<close>

definition rstrip :: "char \<Rightarrow> string \<Rightarrow> string" where
  "rstrip c s = rev (dropWhile (\<lambda>x. x = c) (rev s))"

text \<open>
  \<^verbatim>\<open>s.replace(old, new)\<close> for a non-empty \<^verbatim>\<open>old\<close>: every occurrence, left to
  right, without overlap.
\<close>

function replace :: "string \<Rightarrow> string \<Rightarrow> string \<Rightarrow> string" where
  "replace old new s =
     (if s = [] \<or> old = [] then s
      else if take (length old) s = old then new @ replace old new (drop (length old) s)
      else hd s # replace old new (tl s))"
  by pat_completeness auto
termination
  by (relation "measure (\<lambda>(old, new, s). length s)") auto

declare replace.simps [simp del]

subsection \<open>\<^verbatim>\<open>urllib.parse\<close>\<close>

text \<open>
  The standard library's \<^verbatim>\<open>urlparse\<close> and \<^verbatim>\<open>urlunparse\<close> (CPython 3.11), on
  \<^verbatim>\<open>str\<close> input with the default arguments. Two parts of the library are taken as
  parameters: the validation of a bracketed host (\<^verbatim>\<open>_check_bracketed_host\<close>, which
  parses an IP literal) and MD5. The NFKC check of \<^verbatim>\<open>_checknetloc\<close> never
  raises on code points below 256 and is left out.
\<close>

record library =
  bracketed_host_ok :: "string \<Rightarrow> bool"
  md5_hexdigest :: "string \<Rightarrow> string"
  urljoin :: "string \<Rightarrow> string \<Rightarrow> py_exception + string"

record parse_result =
  scheme :: string
  netloc :: string
  path :: string
  params :: string
  query :: string
  fragment :: string

definition uses_netloc :: "string list" where
  "uses_netloc = ['''', ''ftp'', ''http'', ''gopher'', ''nntp'', ''telnet'',
     ''imap'', ''wais'', ''file'', ''mms'', ''https'', ''shttp'',
     ''snews'', ''prospero'', ''rtsp'', ''rtsps'', ''rtspu'', ''rsync'',
     ''svn'', ''svn+ssh'', ''sftp'', ''nfs'', ''git'', ''git+ssh'',
     ''ws'', ''wss'']"

definition uses_params :: "string list" where
  "uses_params = ['''', ''ftp'', ''hdl'', ''prospero'', ''http'', ''imap'',
     ''https'', ''shttp'', ''rtsp'', ''rtsps'', ''rtspu'', ''sip'',
     ''sips'', ''mms'', ''sftp'', ''tel'']"

definition scheme_char :: "char \<Rightarrow> bool" where
  "scheme_char c = (is_ascii_alpha c \<or> is_ascii_digit c \<or> c \<in> set ''+-.'')"

text \<open>
  \<^verbatim>\<open>
  i = url.find(':')
  if i > 0 and url[0].isascii() and url[0].isalpha():
      for c in url[:i]:
          if c not in scheme_chars: break
      else:
          scheme, url = url[:i].lower(), url[i+1:]
  \<close>
\<close>

definition split_scheme :: "string \<Rightarrow> string \<times> string" where
  "split_scheme url =
     (let pre = takeWhile (\<lambda>c. c \<noteq> CHR '':'') url in
      if length pre < length url \<and> pre \<noteq> [] \<and> is_ascii_alpha (hd url) \<and> list_all scheme_char pre
      then (map ascii_lower pre, drop (length pre + 1) url)
      else ('''', url))"

definition netloc_delim :: "char \<Rightarrow> bool" where
  "netloc_delim c = (c \<in> set ''/?#'')"

text \<open>\<^verbatim>\<open>netloc.partition('[')[2].partition(']')[0]\<close>\<close>

definition bracketed_host :: "string \<Rightarrow> string" where
  "bracketed_host nl =
     takeWhile (\<lambda>c. c \<noteq> CHR '']'') (drop 1 (dropWhile (\<lambda>c. c \<noteq> CHR ''['') nl))"

text \<open>
  \<^verbatim>\<open>
  url = url.lstrip(_WHATWG_C0_CONTROL_OR_SPACE)
  for b in _UNSAFE_URL_BYTES_TO_REMOVE: url = url.replace(b, "")
  \<close>
\<close>

definition strip_unsafe :: "string \<Rightarrow> string" where
  "strip_unsafe url =
     filter (\<lambda>c. (of_char c :: nat) \<notin> {0x09, 0x0D, 0x0A})
       (dropWhile (\<lambda>c. (of_char c :: nat) \<le> 0x20) url)"

text \<open>\<^verbatim>\<open>_splitnetloc(url, 2)\<close>: the authority ends at the first of \<^verbatim>\<open>/?#\<close>.\<close>

definition splitnetloc :: "string \<Rightarrow> string \<times> string" where
  "splitnetloc url =
     (takeWhile (\<lambda>c. \<not> netloc_delim c) (drop 2 url),
      dropWhile (\<lambda>c. \<not> netloc_delim c) (drop 2 url))"

text \<open>
  \<^verbatim>\<open>
  if url[:2] == '//':
      netloc, url = _splitnetloc(url, 2)
      if (('[' in netloc and ']' not in netloc) or
              (']' in netloc and '[' not in netloc)):
          raise ValueError("Invalid IPv6 URL")
      if '[' in netloc and ']' in netloc:
          bracketed_host = netloc.partition('[')[2].partition(']')[0]
          _check_bracketed_host(bracketed_host)
  if allow_fragments and '#' in url:
      url, fragment = url.split('#', 1)
  if '?' in url:
      url, query = url.split('?', 1)
  \<close>
\<close>

definition split_authority :: "string \<Rightarrow> string \<times> string" where
  "split_authority url = (if take 2 url = ''//'' then splitnetloc url else ('''', url))"

definition netloc_error :: "library \<Rightarrow> string \<Rightarrow> bool" where
  "netloc_error L nl =
     ((CHR ''['' \<in> set nl \<and> CHR '']'' \<notin> set nl) \<or> (CHR '']'' \<in> set nl \<and> CHR ''['' \<notin> set nl)
      \<or> (CHR ''['' \<in> set nl \<and> CHR '']'' \<in> set nl \<and> \<not> bracketed_host_ok L (bracketed_host nl)))"

definition split_fragment :: "string \<Rightarrow> string \<times> string" where
  "split_fragment url = (if CHR ''#'' \<in> set url then split_once (CHR ''#'') url else (url, ''''))"

definition split_query :: "string \<Rightarrow> string \<times> string" where
  "split_query url = (if CHR ''?'' \<in> set url then split_once (CHR ''?'') url else (url, ''''))"

definition urlsplit :: "library \<Rightarrow> string \<Rightarrow> py_exception + parse_result" where
  "urlsplit L url0 =
     (let (sch, url3) = split_scheme (strip_unsafe url0);
          (nl, url4) = split_authority url3
      in
      if netloc_error L nl then Inl ValueError
      else
        let (url5, frag) = split_fragment url4;
            (url6, qry) = split_query url5
        in Inr \<lparr>scheme = sch, netloc = nl, path = url6, params = '''', query = qry,
                 fragment = frag\<rparr>)"

text \<open>
  \<^verbatim>\<open>
  def _splitparams(url):
      if '/' in url:
          i = url.find(';', url.rfind('/'))
          if i < 0: return url, ''
      else:
          i = url.find(';')
      return url[:i], url[i+1:]
  \<close>
  The search for \<^verbatim>\<open>;\<close> starts at the last \<^verbatim>\<open>/\<close>, that is, in the last segment.
\<close>

definition splitparams :: "string \<Rightarrow> string \<times> string" where
  "splitparams url =
     (let last_seg = rev (takeWhile (\<lambda>c. c \<noteq> CHR ''/'') (rev url));
          front = take (length url - length last_seg) url
      in if CHR '';'' \<in> set last_seg
         then (front @ takeWhile (\<lambda>c. c \<noteq> CHR '';'') last_seg,
               drop 1 (dropWhile (\<lambda>c. c \<noteq> CHR '';'') last_seg))
         else (url, ''''))"

definition urlparse :: "library \<Rightarrow> string \<Rightarrow> py_exception + parse_result" where
  "urlparse L url =
     (case urlsplit L url of
        Inl e \<Rightarrow> Inl e
      | Inr r \<Rightarrow>
          if scheme r \<in> set uses_params \<and> CHR '';'' \<in> set (path r)
          then (let (url', prm) = splitparams (path r) in Inr (r\<lparr>path := url', params := prm\<rparr>))
          else Inr r)"

text \<open>
  \<^verbatim>\<open>
  def urlunsplit(components):
      if netloc or (scheme and scheme in uses_netloc) or url[:2] == '//':
          if url and url[:1] != '/': url = '/' + url
          url = '//' + (netloc or '') + url
      if scheme:   url = scheme + ':' + url
      if query:    url = url + '?' + query
      if fragment: url = url + '#' + fragment
      return url
  \<close>
\<close>

definition urlunsplit :: "string \<Rightarrow> string \<Rightarrow> string \<Rightarrow> string \<Rightarrow> string \<Rightarrow> string" where
  "urlunsplit sch nl url qry frag =
     (let url1 =
            (if nl \<noteq> [] \<or> (sch \<noteq> [] \<and> sch \<in> set uses_netloc) \<or> take 2 url = ''//''
             then ''//'' @ nl @ (if url \<noteq> [] \<and> take 1 url \<noteq> ''/'' then ''/'' @ url else url)
             else url);
          url2 = (if sch \<noteq> [] then sch @ '':'' @ url1 else url1);
          url3 = (if qry \<noteq> [] then url2 @ ''?'' @ qry else url2)
      in if frag \<noteq> [] then url3 @ ''#'' @ frag else url3)"

definition urlunparse :: "string \<Rightarrow> string \<Rightarrow> string \<Rightarrow> string \<Rightarrow> string \<Rightarrow> string \<Rightarrow> string" where
  "urlunparse sch nl url prm qry frag =
     urlunsplit sch nl (if prm \<noteq> [] then url @ '';'' @ prm else url) qry frag"

subsection \<open>\<^verbatim>\<open>WebCrawler.normalize_url\<close>\<close>

text \<open>
  \<^verbatim>\<open>
  try:
      parsed = urlparse(url)
      normalized = urlunparse((parsed.scheme, parsed.netloc, parsed.path,
                               parsed.params, parsed.query, ""))
      if parsed.path == "":
          normalized = normalized + "/"
      return normalized
  except Exception:
      return url
  \<close>
\<close>

definition normalize_url :: "library \<Rightarrow> url \<Rightarrow> url" where
  "normalize_url L url =
     (case urlparse L url of
        Inl e \<Rightarrow> url
      | Inr parsed \<Rightarrow>
          let normalized =
                urlunparse (scheme parsed) (netloc parsed) (path parsed) (params parsed)
                  (query parsed) ''''
          in if path parsed = '''' then normalized @ ''/'' else normalized)"

subsection \<open>\<^verbatim>\<open>WebCrawler.get_filename_for_url\<close>\<close>

text \<open>
  The memo \<^verbatim>\<open>self.url_to_filename_map\<close> is a dict from normalized URL to
  filename; the function returns the filename and the memo it leaves behind.
  \<^verbatim>\<open>
  url = self.normalize_url(url)
  if url in self.url_to_filename_map:
      return self.url_to_filename_map[url]
  parsed_url = urlparse(url)
  domain = parsed_url.netloc.replace("www.", "")
  path_hash = hashlib.md5(parsed_url.path.encode()).hexdigest()[:8]
  if parsed_url.path and parsed_url.path != "/":
      path = parsed_url.path.rstrip("/")
      filename = f"{domain}{path.replace('/', '_')}"
      if len(filename) > 100:
          filename = f"{domain}_{path_hash}"
  else:
      filename = f"{domain}_index"
  filename = "".join(c if c.isalnum() or c in "_-." else "_" for c in filename)
  filename = f"{filename}.html"
  self.url_to_filename_map[url] = filename
  return filename
  \<close>
\<close>

definition get_filename_for_url ::
  "library \<Rightarrow> (url \<times> string) list \<Rightarrow> url \<Rightarrow> py_exception + string \<times> (url \<times> string) list" where
  "get_filename_for_url L url_to_filename_map url0 =
     (let url = normalize_url L url0 in
      case map_of url_to_filename_map url of
        Some filename \<Rightarrow> Inr (filename, url_to_filename_map)
      | None \<Rightarrow>
          (case urlparse L url of
             Inl e \<Rightarrow> Inl e
           | Inr parsed_url \<Rightarrow>
               let domain = replace ''www.'' '''' (netloc parsed_url);
                   path_hash = take 8 (md5_hexdigest L (path parsed_url));
                   filename =
                     (if path parsed_url \<noteq> [] \<and> path parsed_url \<noteq> ''/''
                      then
                        let path' = rstrip (CHR ''/'') (path parsed_url);
                            filename = domain @ replace ''/'' ''_'' path'
                        in if length filename > 100 then domain @ ''_'' @ path_hash
                           else filename
                      else domain @ ''_index'');
                   filename =
                     map (\<lambda>c. if isalnum c \<or> c \<in> set ''_-.'' then c else CHR ''_'') filename;
                   filename = filename @ ''.html''
               in Inr (filename, AList.update url filename url_to_filename_map)))"

text \<open>A stand-in for the library parameters, for evaluating concrete inputs.\<close>

definition lib0 :: library where
  "lib0 = \<lparr>bracketed_host_ok = (\<lambda>h. True),
           md5_hexdigest = (\<lambda>s. ''d41d8cd98f00b204e9800998ecf8427e''),
           urljoin = (\<lambda>base ref. Inr ref)\<rparr>"

text \<open>
  The filename rule by the specification's wording, for a domain and a path: clean the
  domain; \<open>{domain}_index\<close> when the path is empty or \<open>/\<close>; otherwise the domain followed
  by the path with its trailing slashes removed and every \<open>/\<close> turned into \<open>_\<close>, or
  \<open>{domain}_{first 8 hex digits of MD5(path)}\<close> when that name is longer than 100
  characters; every character that is not alphanumeric, \<open>_\<close>, \<open>-\<close> or \<open>.\<close> becomes
  \<open>_\<close>; \<open>.html\<close> is appended. The specification cleans the domain by stripping a
  leading \<open>www.\<close>.
\<close>

definition spec_strip_www :: "string \<Rightarrow> string" where
  "spec_strip_www d = (if take 4 d = ''www.'' then drop 4 d else d)"

definition spec_safe_char :: "char \<Rightarrow> bool" where
  "spec_safe_char c = (isalnum c \<or> c = CHR ''_'' \<or> c = CHR ''-'' \<or> c = CHR ''.'')"

definition spec_filename :: "library \<Rightarrow> (string \<Rightarrow> string) \<Rightarrow> string \<Rightarrow> string \<Rightarrow> string" where
  "spec_filename L clean host pth =
     (let domain = clean host;
          joined = domain @ map (\<lambda>c. if c = CHR ''/'' then CHR ''_'' else c) (rstrip (CHR ''/'') pth);
          name =
            (if pth = [] \<or> pth = ''/'' then domain @ ''_index''
             else if length joined > 100 then domain @ ''_'' @ take 8 (md5_hexdigest L pth)
             else joined)
      in map (\<lambda>c. if spec_safe_char c then c else CHR ''_'') name @ ''.html'')"

definition spec_filename_for_url ::
  "library \<Rightarrow> (string \<Rightarrow> string) \<Rightarrow> url \<Rightarrow> py_exception + string" where
  "spec_filename_for_url L clean u =
     (case urlparse L u of
        Inl e \<Rightarrow> Inl e
      | Inr p \<Rightarrow> Inr (spec_filename L clean (netloc p) (path p)))"

text \<open>
  A memo is consistent when each of its entries is the rule's filename for its key, with
  every occurrence of \<open>www.\<close> removed from the domain.
\<close>

definition memo_ok :: "library \<Rightarrow> (url \<times> string) list \<Rightarrow> bool" where
  "memo_ok L m =
     (\<forall>k f. map_of m k = Some f \<longrightarrow>
        spec_filename_for_url L (replace ''www.'' '''') k = Inr f)"

section \<open>WebCrawler\<close>

subsection \<open>Construction and the initial frontier\<close>

text \<open>
  The constructor keeps only the authority of the seed:
  \<^verbatim>\<open>self.base_domain = urlparse(seed_url).netloc\<close>; a \<^verbatim>\<open>ValueError\<close> of
  \<^verbatim>\<open>urlparse\<close> leaves the constructor. Depths and the bounds are Python ints.
\<close>

record crawler_config =
  max_depth :: int
  restrict_to_domain :: bool
  base_domain :: string
  save_path :: "string option"
  max_workers :: int

definition WebCrawler_init ::
  "library \<Rightarrow> url \<Rightarrow> int \<Rightarrow> bool \<Rightarrow> string option \<Rightarrow> int \<Rightarrow> py_exception + crawler_config" where
  "WebCrawler_init L seed_url md restrict sp mw =
     (case urlparse L seed_url of
        Inl e \<Rightarrow> Inl e
      | Inr parsed_url \<Rightarrow>
          Inr \<lparr>max_depth = md, restrict_to_domain = restrict, base_domain = netloc parsed_url,
               save_path = sp, max_workers = mw\<rparr>)"

text \<open>
  \<^verbatim>\<open>
  seed_url = (f"https://{self.base_domain}"
              if not urlparse(self.base_domain).scheme else self.base_domain)
  seed_url = self.normalize_url(seed_url)
  queue = deque([(seed_url, 1)])
  \<close>
\<close>

definition initial_queue :: "library \<Rightarrow> crawler_config \<Rightarrow> py_exception + (url \<times> int) list" where
  "initial_queue L c =
     (case urlparse L (base_domain c) of
        Inl e \<Rightarrow> Inl e
      | Inr p \<Rightarrow>
          let seed_url = (if scheme p = [] then ''https://'' @ base_domain c else base_domain c);
              seed_url = normalize_url L seed_url
          in Inr [(seed_url, 1)])"

text \<open>The frontier with which \<^verbatim>\<open>WebCrawler(seed_url, ...).crawl()\<close> starts.\<close>

definition crawl_start ::
  "library \<Rightarrow> url \<Rightarrow> int \<Rightarrow> bool \<Rightarrow> string option \<Rightarrow> int \<Rightarrow> py_exception + (url \<times> int) list" where
  "crawl_start L seed_url md restrict sp mw =
     (case WebCrawler_init L seed_url md restrict sp mw of
        Inl e \<Rightarrow> Inl e
      | Inr c \<Rightarrow> initial_queue L c)"

text \<open>A plain host name: ASCII letters, digits, dots and hyphens.\<close>

definition host_char :: "char \<Rightarrow> bool" where
  "host_char c = (is_ascii_alpha c \<or> is_ascii_digit c \<or> c = CHR ''.'' \<or> c = CHR ''-'')"

subsection \<open>External collaborators\<close>

text \<open>
  What the crawler calls outside itself, as functions that return or raise:
  the clock of \<^verbatim>\<open>apply_rate_limit\<close> (\<^verbatim>\<open>time.time\<close>, \<^verbatim>\<open>time.sleep\<close>) for a
  domain; reading a cache file (\<open>None\<close> when the file does not exist, or when reading it
  raised, which \<^verbatim>\<open>process_url\<close> catches on the spot); the fetch
  (\<^verbatim>\<open>requests.get\<close>, \<^verbatim>\<open>raise_for_status\<close>, \<^verbatim>\<open>response.text\<close>); the HTML parser
  (\<^verbatim>\<open>BeautifulSoup(content).find_all("a", href=True)\<close>, as the list of
  \<^verbatim>\<open>href\<close> values); writing a cache file.
\<close>

record externals =
  rate_limit_wait :: "string \<Rightarrow> py_exception + unit"
  read_cache :: "string \<Rightarrow> string option"
  http_get :: "url \<Rightarrow> py_exception + string"
  anchor_hrefs :: "string \<Rightarrow> py_exception + string list"
  write_file :: "string \<Rightarrow> string \<Rightarrow> py_exception + unit"

record crawler_state =
  visited_urls :: "url set"
  link_structure :: link_graph
  url_to_filename_map :: "(url \<times> string) list"

definition new_crawler_state :: crawler_state where
  "new_crawler_state = \<lparr>visited_urls = {}, link_structure = [], url_to_filename_map = []\<rparr>"

definition startswith :: "string \<Rightarrow> string \<Rightarrow> bool" where
  "startswith s pre = (take (length pre) s = pre)"

text \<open>\<^verbatim>\<open>os.path.join(a, b)\<close> (POSIX).\<close>

definition os_path_join :: "string \<Rightarrow> string \<Rightarrow> string" where
  "os_path_join a b =
     (if startswith b ''/'' then b
      else if a = [] \<or> last a = CHR ''/'' then a @ b
      else a @ ''/'' @ b)"

text \<open>\<^verbatim>\<open>if self.save_path\<close>: neither \<^verbatim>\<open>None\<close> nor the empty string.\<close>

definition save_path_set :: "crawler_config \<Rightarrow> bool" where
  "save_path_set c = (case save_path c of None \<Rightarrow> False | Some d \<Rightarrow> d \<noteq> [])"

subsection \<open>\<^verbatim>\<open>extract_links_from_content\<close> and \<^verbatim>\<open>fetch_links_and_content\<close>\<close>

text \<open>
  \<^verbatim>\<open>
  for a_tag in soup.find_all("a", href=True):
      href = a_tag["href"]
      if not href or href.startswith("javascript:") or href.startswith("#"):
          continue
      try:
          absolute_url = urljoin(url, href)
          absolute_url = self.normalize_url(absolute_url)
          parsed = urlparse(absolute_url)
          if not parsed.scheme or not parsed.netloc:
              continue
          links.append(absolute_url)
      except Exception:
          continue
  \<close>
\<close>

fun extract_hrefs :: "library \<Rightarrow> url \<Rightarrow> string list \<Rightarrow> url list" where
  "extract_hrefs L url [] = []"
| "extract_hrefs L url (href # hrefs) =
     (if href = [] \<or> startswith href ''javascript:'' \<or> startswith href ''#''
      then extract_hrefs L url hrefs
      else
        case urljoin L url href of
          Inl e \<Rightarrow> extract_hrefs L url hrefs
        | Inr joined \<Rightarrow>
            (let absolute_url = normalize_url L joined in
             case urlparse L absolute_url of
               Inl e \<Rightarrow> extract_hrefs L url hrefs
             | Inr parsed \<Rightarrow>
                 if scheme parsed = [] \<or> netloc parsed = [] then extract_hrefs L url hrefs
                 else absolute_url # extract_hrefs L url hrefs))"

definition extract_links_from_content ::
  "library \<Rightarrow> externals \<Rightarrow> url \<Rightarrow> string \<Rightarrow> py_exception + url list" where
  "extract_links_from_content L E url content =
     (case anchor_hrefs E content of
        Inl e \<Rightarrow> Inl e
      | Inr hrefs \<Rightarrow> Inr (extract_hrefs L url hrefs))"

definition fetch_links_and_content ::
  "library \<Rightarrow> externals \<Rightarrow> url \<Rightarrow> py_exception + url list \<times> string" where
  "fetch_links_and_content L E url =
     (case http_get E url of
        Inl e \<Rightarrow> Inl e
      | Inr content \<Rightarrow>
          (case extract_links_from_content L E url content of
             Inl e \<Rightarrow> Inl e
           | Inr links \<Rightarrow> Inr (links, content)))"

text \<open>
  \<^verbatim>\<open>save_page\<close>: the filename (which may extend the memo), then the write. The memo
  it leaves is returned also when the write raises.
\<close>

definition save_page ::
  "library \<Rightarrow> externals \<Rightarrow> crawler_config \<Rightarrow> (url \<times> string) list \<Rightarrow> url \<Rightarrow> string
     \<Rightarrow> (py_exception + unit) \<times> (url \<times> string) list" where
  "save_page L E c memo url content =
     (case get_filename_for_url L memo url of
        Inl e \<Rightarrow> (Inl e, memo)
      | Inr (filename, memo') \<Rightarrow>
          (write_file E (os_path_join (the (save_path c)) filename) content, memo'))"

subsection \<open>\<^verbatim>\<open>WebCrawler.process_url\<close>\<close>

text \<open>
  The part of \<^verbatim>\<open>process_url\<close> between the creation of the graph entry and its
  update: every external call of the routine is here.
  \<^verbatim>\<open>
  domain = parsed.netloc
  self.apply_rate_limit(domain)
  cached_content = None
  if self.save_path:
      filename = self.get_filename_for_url(url)
      filepath = os.path.join(self.save_path, filename)
      if os.path.exists(filepath):
          try:    cached_content = open(filepath).read()
          except Exception as e: cached_content = None
  if cached_content:
      links = self.extract_links_from_content(url, cached_content)
  else:
      links, content = self.fetch_links_and_content(url)
      if self.save_path and content:
          self.save_page(url, content)
  \<close>
\<close>

definition obtain_links ::
  "library \<Rightarrow> externals \<Rightarrow> crawler_config \<Rightarrow> (url \<times> string) list \<Rightarrow> url \<Rightarrow> string
     \<Rightarrow> (py_exception + url list) \<times> (url \<times> string) list" where
  "obtain_links L E c memo url domain =
     (case rate_limit_wait E domain of
        Inl e \<Rightarrow> (Inl e, memo)
      | Inr _ \<Rightarrow>
          (case (if save_path_set c
                 then (case get_filename_for_url L memo url of
                         Inl e \<Rightarrow> Inl e
                       | Inr (filename, memo') \<Rightarrow>
                           Inr (read_cache E (os_path_join (the (save_path c)) filename), memo'))
                 else Inr (None, memo)) of
             Inl e \<Rightarrow> (Inl e, memo)
           | Inr (cached_content, memo1) \<Rightarrow>
               if cached_content \<noteq> None \<and> cached_content \<noteq> Some []
               then (extract_links_from_content L E url (the cached_content), memo1)
               else
                 (case fetch_links_and_content L E url of
                    Inl e \<Rightarrow> (Inl e, memo1)
                  | Inr (links, content) \<Rightarrow>
                      if save_path_set c \<and> content \<noteq> []
                      then (case save_page L E c memo1 url content of
                              (Inl e, memo2) \<Rightarrow> (Inl e, memo2)
                            | (Inr _, memo2) \<Rightarrow> (Inr links, memo2))
                      else (Inr links, memo1))))"

text \<open>
  \<^verbatim>\<open>
  new_urls = []
  for link in links:
      link = self.normalize_url(link)
      if link in self.visited_urls: continue
      link_domain = urlparse(link).netloc
      if not self.restrict_to_domain or link_domain == self.base_domain:
          new_urls.append(link)
  \<close>
\<close>

fun filter_new_urls ::
  "library \<Rightarrow> crawler_config \<Rightarrow> url set \<Rightarrow> url list \<Rightarrow> py_exception + url list" where
  "filter_new_urls L c visited [] = Inr []"
| "filter_new_urls L c visited (link0 # links) =
     (let link = normalize_url L link0 in
      if link \<in> visited then filter_new_urls L c visited links
      else
        case urlparse L link of
          Inl e \<Rightarrow> Inl e
        | Inr parsed \<Rightarrow>
            (case filter_new_urls L c visited links of
               Inl e \<Rightarrow> Inl e
             | Inr new_urls \<Rightarrow>
                 if \<not> restrict_to_domain c \<or> netloc parsed = base_domain c
                 then Inr (link # new_urls)
                 else Inr new_urls))"

text \<open>
  \<^verbatim>\<open>process_url\<close> returns the new URLs and leaves the shared state changed. Its
  \<^verbatim>\<open>try\<close> block turns every exception into the result \<^verbatim>\<open>[]\<close>, with the state
  as it was when the exception was raised.
  \<^verbatim>\<open>
  url = self.normalize_url(url)
  try:
      parsed = urlparse(url)
      if not parsed.scheme or not parsed.netloc: return []
      with self.visited_lock:
          if url in self.visited_urls: return []
          self.visited_urls.add(url)
      with self.structure_lock:
          self.link_structure[url] = []
      ...                                   # obtain_links
      with self.structure_lock:
          self.link_structure[url] = links
      ...                                   # filter_new_urls
      return new_urls
  except Exception as e:
      return []
  \<close>
\<close>

definition process_url ::
  "library \<Rightarrow> externals \<Rightarrow> crawler_config \<Rightarrow> crawler_state \<Rightarrow> url \<Rightarrow> int
     \<Rightarrow> url list \<times> crawler_state" where
  "process_url L E c s url0 depth =
     (let url = normalize_url L url0 in
      case urlparse L url of
        Inl e \<Rightarrow> ([], s)
      | Inr parsed \<Rightarrow>
          if scheme parsed = [] \<or> netloc parsed = [] then ([], s)
          else if url \<in> visited_urls s then ([], s)
          else
            let s1 = s\<lparr>visited_urls := insert url (visited_urls s),
                       link_structure := AList.update url [] (link_structure s)\<rparr>
            in
            case obtain_links L E c (url_to_filename_map s1) url (netloc parsed) of
              (Inl e, memo) \<Rightarrow> ([], s1\<lparr>url_to_filename_map := memo\<rparr>)
            | (Inr links, memo) \<Rightarrow>
                let s2 = s1\<lparr>url_to_filename_map := memo,
                            link_structure := AList.update url links (link_structure s1)\<rparr>
                in
                (case filter_new_urls L c (visited_urls s2) links of
                   Inl e \<Rightarrow> ([], s2)
                 | Inr new_urls \<Rightarrow> (new_urls, s2)))"

subsection \<open>\<^verbatim>\<open>WebCrawler.crawl\<close>: the scheduler loop\<close>

text \<open>
  The state of the loop in \<^verbatim>\<open>crawl\<close>: its queue, its \<^verbatim>\<open>processing\<close> set, the
  crawler state it shares with the workers, and (for the statements about dispatch) the
  list of all tasks handed to \<^verbatim>\<open>executor.submit(self.process_url, url, depth)\<close> so far.
\<close>

record crawl_loop =
  queue :: "(url \<times> int) list"
  processing :: "url set"
  shared :: crawler_state
  submitted :: "(url \<times> int) list"

text \<open>
  \<^verbatim>\<open>
  batch = []
  while queue and len(batch) < self.max_workers:
      url, depth = queue.popleft()
      if url in self.visited_urls or url in processing: continue
      if depth > self.max_depth: continue
      processing.add(url)
      batch.append((url, depth))
  \<close>
  The result is the batch, the queue that is left and the \<^verbatim>\<open>processing\<close> set.
\<close>

fun select_batch ::
  "crawler_config \<Rightarrow> url set \<Rightarrow> (url \<times> int) list \<Rightarrow> url set \<Rightarrow> (url \<times> int) list
     \<Rightarrow> (url \<times> int) list \<times> (url \<times> int) list \<times> url set" where
  "select_batch c visited [] proc batch = (batch, [], proc)"
| "select_batch c visited ((url, depth) # q) proc batch =
     (if int (length batch) < max_workers c
      then
        if url \<in> visited \<or> url \<in> proc then select_batch c visited q proc batch
        else if depth > max_depth c then select_batch c visited q proc batch
        else select_batch c visited q (insert url proc) (batch @ [(url, depth)])
      else (batch, (url, depth) # q, proc))"

text \<open>
  \<^verbatim>\<open>
  for future in concurrent.futures.as_completed(future_to_url):
      url, depth = future_to_url[future]
      processing.remove(url)
      try:
          result_urls = future.result()
          if result_urls:
              for new_url in result_urls:
                  new_urls.append((new_url, depth + 1))
      except Exception as e: ...
  queue.extend(new_urls)
  \<close>
  over the completed tasks with their results, in completion order.
\<close>

definition collect_new_urls ::
  "((url \<times> int) \<times> (py_exception + url list)) list \<Rightarrow> (url \<times> int) list" where
  "collect_new_urls completed =
     concat (map (\<lambda>((url, depth), result).
                    case result of
                      Inl e \<Rightarrow> []
                    | Inr result_urls \<Rightarrow> map (\<lambda>new_url. (new_url, depth + 1)) result_urls)
                 completed)"

text \<open>
  One iteration of \<^verbatim>\<open>while queue:\<close> that dispatches a batch. The workers of the
  batch run concurrently and are external to the loop: their results, the order in which
  they complete and the shared state they leave are arbitrary here.
\<close>

inductive crawl_iteration :: "crawler_config \<Rightarrow> crawl_loop \<Rightarrow> crawl_loop \<Rightarrow> bool"
  for c :: crawler_config where
  iteration:
    "queue s \<noteq> [] \<Longrightarrow>
     select_batch c (visited_urls (shared s)) (queue s) (processing s) [] = (batch, q', proc') \<Longrightarrow>
     batch \<noteq> [] \<Longrightarrow>
     mset (map fst completed) = mset batch \<Longrightarrow>
     crawl_iteration c s
       \<lparr>queue = q' @ collect_new_urls completed,
        processing = proc' - set (map fst batch),
        shared = shared',
        submitted = submitted s @ batch\<rparr>"

inductive crawl_reachable :: "library \<Rightarrow> crawler_config \<Rightarrow> crawl_loop \<Rightarrow> bool"
  for L :: library and c :: crawler_config where
  start:
    "initial_queue L c = Inr q \<Longrightarrow>
     crawl_reachable L c \<lparr>queue = q, processing = {}, shared = new_crawler_state, submitted = []\<rparr>"
| step:
    "crawl_reachable L c s \<Longrightarrow> crawl_iteration c s s' \<Longrightarrow> crawl_reachable L c s'"

subsection \<open>The workers of a run, interleaved\<close>

text \<open>
  Every call of \<^verbatim>\<open>process_url\<close> runs in a pool thread. What it does to the visited
  set and to the network is split where other threads can interleave:
  \<^item> the call is submitted with some URL;
  \<^item> it normalizes and validates the URL and then, holding \<^verbatim>\<open>visited_lock\<close>, in one
    step either finds the URL visited (and returns) or adds it;
  \<^item> having added it, it either calls \<^verbatim>\<open>requests.get\<close> for that URL, once, or ends
    without a fetch (a cache hit, or an exception before the fetch).
  Nothing else in the crawler writes the visited set or calls \<^verbatim>\<open>requests.get\<close>.
  Submissions are arbitrary: every order in which \<^verbatim>\<open>crawl\<close> can dispatch tasks is
  among the runs. Two fields serve the statements only: who added a URL to the visited
  set, and the log of \<^verbatim>\<open>requests.get\<close> calls.
\<close>

datatype task = Pending url | Claimed url | Finished

record pool =
  pool_visited :: "url set"
  tasks :: "nat \<rightharpoonup> task"
  claimed_by :: "url \<rightharpoonup> nat"
  fetched :: "(nat \<times> url) list"

definition valid_url :: "library \<Rightarrow> url \<Rightarrow> bool" where
  "valid_url L url =
     (case urlparse L url of
        Inl e \<Rightarrow> False
      | Inr parsed \<Rightarrow> scheme parsed \<noteq> [] \<and> netloc parsed \<noteq> [])"

definition empty_pool :: pool where
  "empty_pool = \<lparr>pool_visited = {}, tasks = Map.empty, claimed_by = Map.empty, fetched = []\<rparr>"

inductive worker_step :: "library \<Rightarrow> pool \<Rightarrow> pool \<Rightarrow> bool" for L :: library where
  submit:
    "tasks s i = None \<Longrightarrow>
     worker_step L s (s\<lparr>tasks := (tasks s)(i \<mapsto> Pending url0)\<rparr>)"
| reject:
    "tasks s i = Some (Pending url0) \<Longrightarrow>
     \<not> valid_url L (normalize_url L url0) \<or> normalize_url L url0 \<in> pool_visited s \<Longrightarrow>
     worker_step L s (s\<lparr>tasks := (tasks s)(i \<mapsto> Finished)\<rparr>)"
| claim:
    "tasks s i = Some (Pending url0) \<Longrightarrow>
     valid_url L (normalize_url L url0) \<Longrightarrow>
     normalize_url L url0 \<notin> pool_visited s \<Longrightarrow>
     worker_step L s
       (s\<lparr>pool_visited := insert (normalize_url L url0) (pool_visited s),
          tasks := (tasks s)(i \<mapsto> Claimed (normalize_url L url0)),
          claimed_by := (claimed_by s)(normalize_url L url0 \<mapsto> i)\<rparr>)"
| fetch:
    "tasks s i = Some (Claimed url) \<Longrightarrow>
     worker_step L s (s\<lparr>tasks := (tasks s)(i \<mapsto> Finished), fetched := fetched s @ [(i, url)]\<rparr>)"
| no_fetch:
    "tasks s i = Some (Claimed url) \<Longrightarrow>
     worker_step L s (s\<lparr>tasks := (tasks s)(i \<mapsto> Finished)\<rparr>)"

inductive pool_reachable :: "library \<Rightarrow> pool \<Rightarrow> bool" for L :: library where
  start: "pool_reachable L empty_pool"
| step: "pool_reachable L s \<Longrightarrow> worker_step L s s' \<Longrightarrow> pool_reachable L s'"

text \<open>What holds between the fields of a pool in every run.\<close>

definition pool_inv :: "pool \<Rightarrow> bool" where
  "pool_inv s =
     (distinct (map snd (fetched s))
      \<and> (\<forall>i url. (i, url) \<in> set (fetched s) \<longrightarrow>
            claimed_by s url = Some i \<and> tasks s i = Some Finished)
      \<and> (\<forall>i url. tasks s i = Some (Claimed url) \<longrightarrow> claimed_by s url = Some i)
      \<and> (\<forall>url. claimed_by s url \<noteq> None \<longrightarrow> url \<in> pool_visited s))"

text \<open>An environment in which every fetch fails, and a crawler without a cache.\<close>

definition failing_net :: externals where
  "failing_net =
     \<lparr>rate_limit_wait = (\<lambda>d. Inr ()),
      read_cache = (\<lambda>f. None),
      http_get = (\<lambda>u. Inl (External ''ConnectionError'')),
      anchor_hrefs = (\<lambda>html. Inr []),
      write_file = (\<lambda>f content. Inr ())\<rparr>"

definition scenario_config :: crawler_config where
  "scenario_config =
     \<lparr>max_depth = 2, restrict_to_domain = True, base_domain = ''x.test'', save_path = None,
      max_workers = 10\<rparr>"

text \<open>
  The scenario after its first iteration: the seed was dispatched, and its worker returned
  the two links of the seed page.
\<close>

definition scenario_after_seed :: crawl_loop where
  "scenario_after_seed =
     \<lparr>queue = [(''https://x.test/a'', 2), (''https://x.test/b'', 2)],
      processing = {},
      shared = new_crawler_state
        \<lparr>visited_urls := {''https://x.test/''},
         link_structure := [(''https://x.test/'', [''https://x.test/a'', ''https://x.test/b''])]\<rparr>,
      submitted = [(''https://x.test/'', 1)]\<rparr>"

text \<open>
  From a pool in which \<open>u\<close> is visited onwards: \<open>u\<close> stays visited, no task newly claims
  \<open>u\<close>, and every fetch of \<open>u\<close> that is in the log later was there already or is made by
  the task that holds the claim on \<open>u\<close>.
\<close>

definition since_visited :: "url \<Rightarrow> pool \<Rightarrow> pool \<Rightarrow> bool" where
  "since_visited u s t =
     (u \<in> pool_visited t
      \<and> (\<forall>i. tasks t i = Some (Claimed u) \<longrightarrow> tasks s i = Some (Claimed u))
      \<and> (\<forall>i. (i, u) \<in> set (fetched t) \<longrightarrow>
             (i, u) \<in> set (fetched s) \<or> tasks s i = Some (Claimed u)))"

text \<open>
  Two pools of the scenario: one task has claimed the seed; the same task has fetched it.
\<close>

definition pool_claimed :: pool where
  "pool_claimed =
     \<lparr>pool_visited = {''http://x.test/''},
      tasks = [0 \<mapsto> Claimed ''http://x.test/''],
      claimed_by = [''http://x.test/'' \<mapsto> 0],
      fetched = []\<rparr>"

text \<open>A pool in which one task claimed the seed of the scenario and fetched it.\<close>

definition pool_after_fetch :: pool where
  "pool_after_fetch =
     \<lparr>pool_visited = {''http://x.test/''},
      tasks = [0 \<mapsto> Finished],
      claimed_by = [''http://x.test/'' \<mapsto> 0],
      fetched = [(0, ''http://x.test/'')]\<rparr>"

section \<open>Analyzer results\<close>

lemma iterate_no_pages: "iterate n [] Map.empty = Inr Map.empty"
  by (induction n) simp_all

text \<open>
  C1 (as stated): on the scenario graph \<open>/ \<rightarrow> [/a, /b]\<close>, \<open>/a \<rightarrow> [/b]\<close>, \<open>/b \<rightarrow> []\<close>,
  \<^verbatim>\<open>find_orphaned_pages\<close> returns the empty list. This is false: the result is not
  empty.
\<close>

theorem C1_orphans_not_empty: "find_orphaned_pages scenario_graph \<noteq> []"
  by (simp add: find_orphaned_pages_def incoming_links_def scenario_graph_def)

text \<open>
  C1 (amended): on the scenario graph, \<^verbatim>\<open>find_orphaned_pages\<close> returns exactly the
  one-element list holding the seed \<^verbatim>\<open>http://x.test/\<close>: nothing links to it, while
  \<^verbatim>\<open>/a\<close> and \<^verbatim>\<open>/b\<close> both receive links.
\<close>

theorem C1_orphans_scenario: "find_orphaned_pages scenario_graph = [''http://x.test/'']"
  by (simp add: find_orphaned_pages_def incoming_links_def scenario_graph_def)

text \<open>
  C10: on the empty link structure every analyzer operation returns normally:
  \<^verbatim>\<open>analyze_page_rank\<close> the empty mapping, the three finders the empty list. No
  division by the page count 0 is evaluated.
\<close>

theorem C10_empty_graph_total:
  "analyze_page_rank [] = Inr Map.empty
   \<and> find_orphaned_pages [] = []
   \<and> find_hubs [] = Inr []
   \<and> find_authorities [] = Inr []"
  by (simp add: analyze_page_rank_def iterate_no_pages find_orphaned_pages_def
      incoming_links_def find_hubs_def find_authorities_def)

subsection \<open>PageRank against the specification\<close>

lemma dict_comp_Inr:
  "dict_comp ks (Inr v) = Inr (\<lambda>u. if u \<in> set ks then Some v else None)"
  by (induction ks) (auto simp: fun_eq_iff)

lemma add_weight_apply:
  "distinct ts \<Longrightarrow>
   add_weight w ts new t =
     (if t \<in> set ts then Some (case new t of Some v \<Rightarrow> v + w | None \<Rightarrow> w) else new t)"
  by (induction ts arbitrary: new) (auto split: option.splits)

lemma spec_received_Cons:
  "spec_received (item # items) score t = spec_share score item t + spec_received items score t"
  by (simp add: spec_received_def)

lemma spec_is_target_Cons:
  "spec_is_target (item # items) t \<longleftrightarrow> t \<in> set (snd item) \<or> spec_is_target items t"
  by (simp add: spec_is_target_def)

lemma spec_received_no_target:
  "\<not> spec_is_target g t \<Longrightarrow> spec_received g score t = 0"
  by (induction g) (auto simp: spec_is_target_Cons spec_received_Cons spec_share_def spec_received_def)

lemma distribute_eq:
  assumes "\<forall>item \<in> set items. scores (fst item) \<noteq> None"
  shows "distribute scores items new =
     Inr (\<lambda>t. if spec_is_target items t
               then Some ((case new t of Some v \<Rightarrow> v | None \<Rightarrow> 0) + spec_received items scores t)
               else new t)"
  using assms
proof (induction items arbitrary: new)
  case Nil
  then show ?case by (simp add: spec_is_target_def)
next
  case (Cons item items)
  obtain source links where item: "item = (source, links)" by (cases item)
  from Cons.prems obtain s where s: "scores source = Some s" by (auto simp: item)
  from Cons.prems have rest: "\<forall>item \<in> set items. scores (fst item) \<noteq> None" by simp
  note IH = Cons.IH [OF rest]
  show ?case
  proof (cases "links = []")
    case True
    show ?thesis
      using IH [of new]
      by (simp add: item True spec_is_target_Cons spec_received_Cons spec_share_def
          cong: if_cong)
  next
    case False
    define w where "w = s * damping_factor / of_nat (length (remdups links))"
    have ne: "remdups links \<noteq> []" using False by simp
    have len: "length (remdups links) = card (set links)"
      by (simp add: length_remdups_card_conv)
    have share: "spec_share scores item t = (if t \<in> set links then w else 0)" for t
      by (simp add: spec_share_def item s w_def len damping_factor_def)
    have snd_item: "snd item = links" by (simp add: item)
    have step: "distribute scores (item # items) new =
          distribute scores items (add_weight w (remdups links) new)"
      using ne by (simp add: item s py_truediv_def w_def Let_def)
    show ?thesis
      unfolding step IH [of "add_weight w (remdups links) new"]
      by (auto simp: fun_eq_iff add_weight_apply spec_is_target_Cons spec_received_Cons
          share snd_item spec_received_no_target split: option.splits)
  qed
qed

lemma spec_rank_step_dom: "u \<in> set (map fst g) \<Longrightarrow> spec_rank_step g score u \<noteq> None"
  by (simp add: spec_rank_step_def)

lemma spec_num_keys_length: "distinct (map fst g) \<Longrightarrow> spec_num_keys g = length g"
  by (simp add: spec_num_keys_def distinct_card del: set_map)

lemma iterate_step:
  assumes "g \<noteq> []" and "distinct (map fst g)" and "\<forall>u \<in> set (map fst g). scores u \<noteq> None"
  shows "iterate (Suc n) g scores = iterate n g (spec_rank_step g scores)"
proof -
  have keys: "\<forall>item \<in> set g. scores (fst item) \<noteq> None" using assms(3) by simp
  have len: "length g \<noteq> 0" using assms(1) by simp
  have "distribute scores g (\<lambda>u. if u \<in> set (map fst g) then Some (spec_base_rank g) else None)
        = Inr (spec_rank_step g scores)"
    unfolding distribute_eq [OF keys]
    by (auto simp: fun_eq_iff spec_rank_step_def spec_received_no_target)
  moreover have "py_truediv (1 - damping_factor) (length g) = Inr (spec_base_rank g)"
    using len
    by (simp add: py_truediv_def spec_base_rank_def damping_factor_def
        spec_num_keys_length [OF assms(2)])
  ultimately show ?thesis
    by (simp add: dict_comp_Inr)
qed

lemma iterate_eq:
  assumes "g \<noteq> []" and "distinct (map fst g)"
    and "\<forall>u \<in> set (map fst g). scores u \<noteq> None"
  shows "iterate n g scores = Inr ((spec_rank_step g ^^ n) scores)"
  using assms(3)
proof (induction n arbitrary: scores)
  case 0
  show ?case by simp
next
  case (Suc n)
  have "\<forall>u \<in> set (map fst g). spec_rank_step g scores u \<noteq> None"
    by (simp add: spec_rank_step_def)
  then have "iterate n g (spec_rank_step g scores) = Inr ((spec_rank_step g ^^ n) (spec_rank_step g scores))"
    by (rule Suc.IH)
  then show ?case
    by (simp add: iterate_step [OF assms(1,2) Suc.prems] funpow_swap1 del: iterate.simps)
qed

lemma analyze_page_rank_spec:
  assumes "g \<noteq> []" and "distinct (map fst g)"
  shows "analyze_page_rank g = Inr (spec_page_rank g)"
proof -
  have "dict_comp (map fst g) (py_truediv 1 (length g)) = Inr (spec_initial_rank g)"
    using assms(1)
    by (simp add: py_truediv_def dict_comp_Inr spec_initial_rank_def
        spec_num_keys_length [OF assms(2)] cong: if_cong)
  moreover have "\<forall>u \<in> set (map fst g). spec_initial_rank g u \<noteq> None"
    by (simp add: spec_initial_rank_def)
  ultimately show ?thesis
    by (simp add: analyze_page_rank_def iterations_def spec_page_rank_def
        iterate_eq [OF assms] del: iterate.simps)
qed

lemma three_cycle_fixed:
  "spec_rank_step three_cycle (spec_initial_rank three_cycle) = spec_initial_rank three_cycle"
  by (auto simp: fun_eq_iff spec_rank_step_def spec_initial_rank_def three_cycle_def
      spec_base_rank_def spec_received_def spec_share_def spec_is_target_def
      spec_num_keys_def)

lemma funpow_fixed: "f x = x \<Longrightarrow> (f ^^ n) x = x"
  by (induction n) simp_all

lemma three_cycle_rank:
  "spec_page_rank three_cycle = map_of [(''A'', 1/3), (''B'', 1/3), (''C'', 1/3)]"
  unfolding spec_page_rank_def funpow_fixed [of "spec_rank_step three_cycle", OF three_cycle_fixed]
  by (auto simp: fun_eq_iff spec_initial_rank_def three_cycle_def spec_num_keys_def)

text \<open>
  C4: for every non-empty link structure (a dict: distinct keys) \<^verbatim>\<open>analyze_page_rank\<close>
  returns the scores of the specification's PageRank: \<open>1/N\<close> per key at the start, ten
  iterations, base rank \<open>(1 - 0.85)/N\<close> per key, every source with distinct targets adding
  \<open>score * 0.85 / |distinct targets|\<close> to each of them, a fresh entry for a target that is
  no key, nothing from a source without targets. On the cycle \<open>A \<rightarrow> B \<rightarrow> C \<rightarrow> A\<close> the three
  scores are \<open>1/3\<close> each.
\<close>

theorem C4_page_rank_matches_spec:
  "(g \<noteq> [] \<longrightarrow> distinct (map fst g) \<longrightarrow> analyze_page_rank g = Inr (spec_page_rank g))
   \<and> analyze_page_rank three_cycle = Inr (map_of [(''A'', 1/3), (''B'', 1/3), (''C'', 1/3)])"
proof
  show "g \<noteq> [] \<longrightarrow> distinct (map fst g) \<longrightarrow> analyze_page_rank g = Inr (spec_page_rank g)"
    by (simp add: analyze_page_rank_spec)
next
  have "three_cycle \<noteq> []" and "distinct (map fst three_cycle)"
    by (simp_all add: three_cycle_def)
  then have "analyze_page_rank three_cycle = Inr (spec_page_rank three_cycle)"
    by (rule analyze_page_rank_spec)
  then show "analyze_page_rank three_cycle
      = Inr (map_of [(''A'', 1/3), (''B'', 1/3), (''C'', 1/3)])"
    by (simp only: three_cycle_rank)
qed

text \<open>
  The hypotheses of C4 hold on a graph with duplicate links, a target that is no key and
  a page without links.
\<close>

theorem C4_page_rank_witness:
  "hub_graph \<noteq> [] \<and> distinct (map fst hub_graph)
   \<and> analyze_page_rank hub_graph = Inr (spec_page_rank hub_graph)"
  using C4_page_rank_matches_spec [of hub_graph] by (simp add: hub_graph_def)

subsection \<open>Hubs against the specification\<close>

lemma map_fst_filter_keys:
  assumes "distinct (map fst g)"
  shows "map fst (filter (\<lambda>(url, links). P links) g)
       = filter (\<lambda>u. case map_of g u of None \<Rightarrow> False | Some links \<Rightarrow> P links) (map fst g)"
proof -
  have "map_of g u = Some links" if "(u, links) \<in> set g" for u links
    using assms that by simp
  then have "filter (\<lambda>(url, links). P links) g
      = filter ((\<lambda>u. case map_of g u of None \<Rightarrow> False | Some links \<Rightarrow> P links) \<circ> fst) g"
    by (intro filter_cong) auto
  then show ?thesis by (simp add: filter_map)
qed

text \<open>
  C9: for every non-empty link structure (a dict: distinct keys) \<^verbatim>\<open>find_hubs\<close>
  returns exactly the keys, in key order, whose raw outbound-list length is strictly
  greater than \<open>max (2 \<times> average outbound length, 10)\<close>.
\<close>

theorem C9_find_hubs_threshold:
  assumes "g \<noteq> []" and "distinct (map fst g)"
  shows "find_hubs g = Inr (filter (spec_is_hub g) (map fst g))"
proof -
  have counts: "map (\<lambda>(_, links). length links) g = map (length \<circ> snd) g"
    by (simp add: case_prod_unfold comp_def)
  have avg: "py_truediv (of_nat (sum_list (map (\<lambda>(_, links). length links) g))) (length g)
      = Inr (spec_average_outbound g)"
    using assms(1)
    by (simp add: counts py_truediv_def spec_average_outbound_def
        spec_num_keys_length [OF assms(2)])
  have hubs: "spec_is_hub g = (\<lambda>u. case map_of g u of None \<Rightarrow> False
      | Some links \<Rightarrow> of_nat (length links) > max (spec_average_outbound g * 2) 10)"
    by (simp add: spec_is_hub_def fun_eq_iff mult.commute [of 2] split: option.splits)
  show ?thesis
    unfolding hubs
    using assms(1) by (simp add: find_hubs_def avg map_fst_filter_keys [OF assms(2)])
qed

text \<open>
  The hypotheses of C9 hold on a three-page graph whose page \<^verbatim>\<open>h\<close> has twelve
  links (average 13/3, threshold 10): \<^verbatim>\<open>h\<close> is its only hub.
\<close>

theorem C9_find_hubs_witness:
  "hub_graph \<noteq> [] \<and> distinct (map fst hub_graph)
   \<and> find_hubs hub_graph = Inr (filter (spec_is_hub hub_graph) (map fst hub_graph))
   \<and> filter (spec_is_hub hub_graph) (map fst hub_graph) = [''h'']"
  using C9_find_hubs_threshold [of hub_graph]
  by (simp add: hub_graph_def spec_is_hub_def spec_average_outbound_def spec_num_keys_def)

section \<open>URL results\<close>

lemmas url_eval_defs =
  normalize_url_def urlparse_def urlsplit_def strip_unsafe_def splitnetloc_def
  split_authority_def netloc_error_def split_fragment_def split_query_def
  split_scheme_def urlunparse_def urlunsplit_def
  splitparams_def split_once_def uses_params_def uses_netloc_def netloc_delim_def
  scheme_char_def is_ascii_alpha_def is_ascii_digit_def ascii_lower_def bracketed_host_def

text \<open>
  C3: idempotence of \<^verbatim>\<open>normalize_url\<close> fails on a URL with an empty path and a
  query. The slash meant for the empty path is appended to the whole string, so it lands
  behind the query, the path stays empty, and every further call appends another slash.
\<close>

theorem C3_normalize_not_idempotent:
  "normalize_url L ''http://x.test?q=1'' = ''http://x.test?q=1/''
   \<and> normalize_url L (normalize_url L ''http://x.test?q=1'') = ''http://x.test?q=1//''"
  by (simp add: url_eval_defs)

subsection \<open>The initial frontier\<close>

lemma urlparse_netloc_no_delim:
  assumes "urlparse L s = Inr p"
  shows "\<forall>c \<in> set (netloc p). \<not> netloc_delim c"
proof -
  from assms obtain r where r: "urlsplit L s = Inr r" and nl: "netloc p = netloc r"
    by (auto simp: urlparse_def split: sum.splits if_splits prod.splits)
  from r have "\<forall>c \<in> set (netloc r). \<not> netloc_delim c"
    by (auto simp: urlsplit_def split_authority_def splitnetloc_def Let_def
        split: prod.splits if_splits dest: set_takeWhileD)
  with nl show ?thesis by simp
qed

lemma split_scheme_subset: "set (snd (split_scheme u)) \<subseteq> set u"
  by (auto simp: split_scheme_def Let_def dest: in_set_dropD)

lemma strip_unsafe_subset: "set (strip_unsafe u) \<subseteq> set u"
  by (auto simp: strip_unsafe_def dest: set_dropWhileD)

lemma urlsplit_no_slash:
  assumes "CHR ''/'' \<notin> set d"
  shows "\<exists>r. urlsplit L d = Inr r"
proof -
  obtain sch url3 where sp: "split_scheme (strip_unsafe d) = (sch, url3)"
    by (cases "split_scheme (strip_unsafe d)")
  have "set url3 \<subseteq> set (strip_unsafe d)"
    using split_scheme_subset [of "strip_unsafe d"] by (simp add: sp)
  then have "CHR ''/'' \<notin> set url3"
    using assms strip_unsafe_subset [of d] by auto
  then have "take 2 url3 \<noteq> ''//''"
    by (cases url3) auto
  then have "split_authority url3 = ([], url3)"
    by (simp add: split_authority_def)
  then show ?thesis
    by (simp add: urlsplit_def Let_def sp netloc_error_def split: prod.splits)
qed

lemma urlparse_no_slash:
  assumes "CHR ''/'' \<notin> set d"
  shows "\<exists>q. urlparse L d = Inr q"
proof -
  from urlsplit_no_slash [OF assms] obtain r where "urlsplit L d = Inr r" by blast
  then show ?thesis by (simp add: urlparse_def split: prod.splits)
qed

lemma host_char_props:
  assumes "host_char c"
  shows "\<not> (of_char c :: nat) \<le> 0x20" and "(of_char c :: nat) \<notin> {0x09, 0x0D, 0x0A}"
    and "c \<noteq> CHR '':''" and "\<not> netloc_delim c" and "c \<noteq> CHR ''[''" and "c \<noteq> CHR '']''"
    and "c \<noteq> CHR '';''"
  using assms
  by (auto simp: host_char_def is_ascii_alpha_def is_ascii_digit_def netloc_delim_def Let_def)

lemma not_host_char:
  "\<not> host_char (CHR ''/'')" "\<not> host_char (CHR ''?'')" "\<not> host_char (CHR ''#'')"
  "\<not> host_char (CHR '';'')" "\<not> host_char (CHR '':'')" "\<not> host_char (CHR ''['')"
  "\<not> host_char (CHR '']'')"
  by (simp_all add: host_char_def is_ascii_alpha_def is_ascii_digit_def)

lemma host_no_special:
  assumes "\<forall>c \<in> set h. host_char c"
  shows "CHR ''/'' \<notin> set h" "CHR ''?'' \<notin> set h" "CHR ''#'' \<notin> set h" "CHR '';'' \<notin> set h"
    "CHR '':'' \<notin> set h" "CHR ''['' \<notin> set h" "CHR '']'' \<notin> set h"
  using assms not_host_char by blast+

lemma lstrip_host:
  assumes "\<forall>c \<in> set h. host_char c"
  shows "dropWhile (\<lambda>c. (of_char c :: nat) \<le> 0x20) h = h"
  using assms by (cases h) (auto dest: host_char_props(1))

lemma remove_unsafe_host:
  assumes "\<forall>c \<in> set h. host_char c"
  shows "filter (\<lambda>c. (of_char c :: nat) \<notin> {0x09, 0x0D, 0x0A}) h = h"
  using assms by (auto simp: filter_id_conv dest: host_char_props(2))

lemma strip_unsafe_host:
  assumes "\<forall>c \<in> set h. host_char c"
  shows "strip_unsafe h = h"
  unfolding strip_unsafe_def lstrip_host [OF assms] remove_unsafe_host [OF assms] ..

lemma urlparse_plain_host:
  assumes "list_all host_char h"
  shows "urlparse L h = Inr \<lparr>scheme = [], netloc = [], path = h, params = [], query = [],
           fragment = []\<rparr>"
proof -
  have all: "\<forall>c \<in> set h. host_char c" using assms by (simp add: list_all_iff)
  have strip: "strip_unsafe h = h"
    using all by (rule strip_unsafe_host)
  have colon: "takeWhile (\<lambda>c. c \<noteq> CHR '':'') h = h"
    using all by (simp add: takeWhile_eq_all_conv host_char_props(3))
  have sch: "split_scheme h = ([], h)"
    by (simp add: split_scheme_def colon)
  have slash: "take 2 h \<noteq> ''//''"
    using host_no_special(1) [OF all] by (cases h) auto
  note nohash = host_no_special(2,3,4) [OF all]
  have "urlsplit L h = Inr \<lparr>scheme = [], netloc = [], path = h, params = [], query = [],
           fragment = []\<rparr>"
    using slash nohash
    by (simp add: urlsplit_def strip sch split_authority_def netloc_error_def
        split_fragment_def split_query_def)
  then show ?thesis
    using nohash by (simp add: urlparse_def)
qed

lemma normalize_https_host:
  assumes "list_all host_char h"
  shows "normalize_url L (''https://'' @ h) = ''https://'' @ h @ ''/''"
proof -
  have all: "\<forall>c \<in> set h. host_char c" using assms by (simp add: list_all_iff)
  have strip: "strip_unsafe (''https://'' @ h) = ''https://'' @ h"
    unfolding strip_unsafe_def using remove_unsafe_host [OF all] by simp
  have tw: "takeWhile (\<lambda>c. \<not> netloc_delim c) h = h"
    using all by (simp add: takeWhile_eq_all_conv host_char_props(4))
  have dw: "dropWhile (\<lambda>c. \<not> netloc_delim c) h = []"
    using all by (simp add: dropWhile_eq_Nil_conv host_char_props(4))
  note br = host_no_special(6,7) [OF all]
  have sch: "split_scheme (''https://'' @ h) = (''https'', ''//'' @ h)"
    by (simp add: split_scheme_def scheme_char_def is_ascii_alpha_def is_ascii_digit_def
        ascii_lower_def)
  have net: "splitnetloc (''//'' @ h) = (h, [])"
    by (simp add: splitnetloc_def tw dw)
  have "urlsplit L (''https://'' @ h) = Inr \<lparr>scheme = ''https'', netloc = h, path = [],
          params = [], query = [], fragment = []\<rparr>"
    unfolding urlsplit_def strip sch using br
    by (simp add: split_authority_def net [simplified] netloc_error_def split_fragment_def
        split_query_def)
  then show ?thesis
    by (simp add: normalize_url_def urlparse_def urlunparse_def urlunsplit_def uses_netloc_def)
qed

text \<open>
  C2: the frontier is to start with the one task \<open>(normalize_url(s), 1)\<close>, the seed
  itself with its path and query; the docstring of \<^verbatim>\<open>crawl\<close> says the same
  (``starting from seed_url''). The code does not do this. The constructor keeps only the
  authority of the seed and \<^verbatim>\<open>crawl\<close> rebuilds a URL from it: for the seed
  \<^verbatim>\<open>http://x.test/a?q=1\<close>, which \<^verbatim>\<open>normalize_url\<close> leaves unchanged, the
  frontier is \<^verbatim>\<open>[(https://x.test/, 1)]\<close>, with another scheme and without the path
  and the query. For the seed \<^verbatim>\<open>http://localhost:8080/\<close> the host of the authority
  \<^verbatim>\<open>localhost:8080\<close> is read as a scheme, no \<^verbatim>\<open>https://\<close> is put in front,
  and the frontier is \<^verbatim>\<open>[(localhost:8080, 1)]\<close>, which is no URL that can be
  fetched.
\<close>

theorem C2_seed_not_start:
  "crawl_start L ''http://x.test/a?q=1'' md restrict sp mw = Inr [(''https://x.test/'', 1)]
   \<and> normalize_url L ''http://x.test/a?q=1'' = ''http://x.test/a?q=1''
   \<and> crawl_start L ''http://localhost:8080/'' md restrict sp mw = Inr [(''localhost:8080'', 1)]"
proof -
  have "crawl_start L ''http://x.test/a?q=1'' md restrict sp mw = Inr [(''https://x.test/'', 1)]"
    by (simp add: crawl_start_def WebCrawler_init_def initial_queue_def url_eval_defs)
  moreover have "normalize_url L ''http://x.test/a?q=1'' = ''http://x.test/a?q=1''"
    by (simp add: url_eval_defs)
  moreover have "crawl_start L ''http://localhost:8080/'' md restrict sp mw
      = Inr [(''localhost:8080'', 1)]"
    by (simp add: crawl_start_def WebCrawler_init_def initial_queue_def url_eval_defs)
  ultimately show ?thesis by simp
qed

text \<open>
  What the code does in general: for every seed that \<^verbatim>\<open>urlparse\<close> accepts the
  frontier holds exactly one task, at depth 1, and for an authority that is a plain host
  name this task is \<^verbatim>\<open>https://<host>/\<close>, whatever the scheme, path and query of the
  seed.
\<close>

lemma crawl_start_plain_host:
  assumes "urlparse L seed_url = Inr p"
  shows "(\<exists>u. crawl_start L seed_url md restrict sp mw = Inr [(u, 1)])
       \<and> (netloc p \<noteq> [] \<and> list_all host_char (netloc p) \<longrightarrow>
            crawl_start L seed_url md restrict sp mw = Inr [(''https://'' @ netloc p @ ''/'', 1)])"
proof
  have "CHR ''/'' \<notin> set (netloc p)"
    using urlparse_netloc_no_delim [OF assms] by (auto simp: netloc_delim_def)
  then obtain q where "urlparse L (netloc p) = Inr q"
    using urlparse_no_slash by blast
  then show "\<exists>u. crawl_start L seed_url md restrict sp mw = Inr [(u, 1)]"
    by (simp add: crawl_start_def WebCrawler_init_def initial_queue_def assms Let_def)
next
  show "netloc p \<noteq> [] \<and> list_all host_char (netloc p) \<longrightarrow>
          crawl_start L seed_url md restrict sp mw = Inr [(''https://'' @ netloc p @ ''/'', 1)]"
  proof
    assume h: "netloc p \<noteq> [] \<and> list_all host_char (netloc p)"
    then have "urlparse L (netloc p) = Inr \<lparr>scheme = [], netloc = [], path = netloc p,
        params = [], query = [], fragment = []\<rparr>"
      by (simp add: urlparse_plain_host)
    moreover have "normalize_url L (''https://'' @ netloc p) = ''https://'' @ netloc p @ ''/''"
      using h by (intro normalize_https_host) simp
    ultimately show "crawl_start L seed_url md restrict sp mw
        = Inr [(''https://'' @ netloc p @ ''/'', 1)]"
      by (simp add: crawl_start_def WebCrawler_init_def initial_queue_def assms)
  qed
qed

subsection \<open>Fragments\<close>

lemma dropWhile_append_stop: "\<not> P y \<Longrightarrow> dropWhile P (xs @ y # ys) = dropWhile P xs @ y # ys"
  by (induction xs) auto

lemma takeWhile_append_stop: "\<not> P y \<Longrightarrow> takeWhile P (xs @ y # ys) = takeWhile P xs"
  by (induction xs) auto

lemma takeWhile_append_all: "\<forall>x \<in> set xs. P x \<Longrightarrow> takeWhile P (xs @ ys) = xs @ takeWhile P ys"
  by (induction xs) auto

lemma takeWhile_shorter:
  assumes "x \<in> set xs" and "\<not> P x"
  shows "length (takeWhile P xs) < length xs"
  using assms by (induction xs) auto

lemma strip_unsafe_fragment:
  "strip_unsafe (u @ CHR ''#'' # f)
     = strip_unsafe u @ CHR ''#'' # filter (\<lambda>c. (of_char c :: nat) \<notin> {0x09, 0x0D, 0x0A}) f"
  by (simp add: strip_unsafe_def dropWhile_append_stop)

lemma split_scheme_fragment:
  assumes "CHR ''#'' \<notin> set v"
  shows "split_scheme (v @ CHR ''#'' # g) = (fst (split_scheme v), snd (split_scheme v) @ CHR ''#'' # g)"
proof (cases "CHR '':'' \<in> set v")
  case True
  then have tw: "takeWhile (\<lambda>c. c \<noteq> CHR '':'') (v @ CHR ''#'' # g) = takeWhile (\<lambda>c. c \<noteq> CHR '':'') v"
    by simp
  from True have len: "length (takeWhile (\<lambda>c. c \<noteq> CHR '':'') v) < length v"
    by (rule takeWhile_shorter) simp
  from True have ne: "v \<noteq> []" by auto
  show ?thesis
    using len ne by (simp add: split_scheme_def tw Let_def)
next
  case False
  then have all: "\<forall>x \<in> set v. x \<noteq> CHR '':''" by auto
  have tw_v: "takeWhile (\<lambda>c. c \<noteq> CHR '':'') v = v"
    using all by simp
  have tw: "takeWhile (\<lambda>c. c \<noteq> CHR '':'') (v @ CHR ''#'' # g)
      = v @ CHR ''#'' # takeWhile (\<lambda>c. c \<noteq> CHR '':'') g"
    using all by (simp add: takeWhile_append_all)
  have "\<not> scheme_char (CHR ''#'')"
    by (simp add: scheme_char_def is_ascii_alpha_def is_ascii_digit_def)
  then have "\<not> list_all scheme_char (v @ CHR ''#'' # takeWhile (\<lambda>c. c \<noteq> CHR '':'') g)"
    by simp
  then show ?thesis
    by (simp add: split_scheme_def tw tw_v Let_def)
qed

lemma take2_fragment:
  assumes "CHR ''#'' \<notin> set w"
  shows "take 2 (w @ CHR ''#'' # g) = ''//'' \<longleftrightarrow> take 2 w = ''//''"
proof (cases w)
  case Nil
  then show ?thesis by simp
next
  case (Cons a w')
  then show ?thesis using assms by (cases w') auto
qed

lemma splitnetloc_fragment:
  assumes "take 2 w = ''//''"
  shows "splitnetloc (w @ CHR ''#'' # g) = (fst (splitnetloc w), snd (splitnetloc w) @ CHR ''#'' # g)"
proof -
  from assms have len: "2 \<le> length w"
    by (cases w; cases "tl w") auto
  then have d: "drop 2 (w @ CHR ''#'' # g) = drop 2 w @ CHR ''#'' # g" by simp
  have delim: "\<not> \<not> netloc_delim (CHR ''#'')" by (simp add: netloc_delim_def)
  have "takeWhile (\<lambda>c. \<not> netloc_delim c) (drop 2 w @ CHR ''#'' # g)
      = takeWhile (\<lambda>c. \<not> netloc_delim c) (drop 2 w)"
    using delim by (rule takeWhile_append_stop)
  moreover have "dropWhile (\<lambda>c. \<not> netloc_delim c) (drop 2 w @ CHR ''#'' # g)
      = dropWhile (\<lambda>c. \<not> netloc_delim c) (drop 2 w) @ CHR ''#'' # g"
    using delim by (rule dropWhile_append_stop)
  ultimately show ?thesis
    unfolding splitnetloc_def d by simp
qed

lemma splitnetloc_subset: "set (snd (splitnetloc w)) \<subseteq> set w"
  by (auto simp: splitnetloc_def dest: set_dropWhileD in_set_dropD)

lemma split_authority_fragment:
  assumes "CHR ''#'' \<notin> set w"
  shows "split_authority (w @ CHR ''#'' # g)
     = (fst (split_authority w), snd (split_authority w) @ CHR ''#'' # g)"
  using take2_fragment [OF assms, of g]
  by (auto simp: split_authority_def splitnetloc_fragment)

lemma split_authority_subset: "set (snd (split_authority w)) \<subseteq> set w"
  using splitnetloc_subset [of w] by (auto simp: split_authority_def)

lemma split_fragment_append:
  assumes "CHR ''#'' \<notin> set w"
  shows "split_fragment (w @ CHR ''#'' # g) = (w, g)" and "split_fragment w = (w, [])"
proof -
  from assms have all: "\<forall>x \<in> set w. x \<noteq> CHR ''#''" by auto
  then have "takeWhile (\<lambda>x. x \<noteq> CHR ''#'') (w @ CHR ''#'' # g) = w"
    by (simp add: takeWhile_append_all)
  moreover from all have "dropWhile (\<lambda>x. x \<noteq> CHR ''#'') (w @ CHR ''#'' # g) = CHR ''#'' # g"
    by simp
  ultimately show "split_fragment (w @ CHR ''#'' # g) = (w, g)"
    by (simp add: split_fragment_def split_once_def)
  show "split_fragment w = (w, [])"
    using assms by (simp add: split_fragment_def)
qed

lemma urlsplit_fragment:
  assumes "CHR ''#'' \<notin> set u"
  shows "urlsplit L (u @ CHR ''#'' # f)
     = (case urlsplit L u of
          Inl e \<Rightarrow> Inl e
        | Inr r \<Rightarrow>
            Inr (r\<lparr>fragment := filter (\<lambda>c. (of_char c :: nat) \<notin> {0x09, 0x0D, 0x0A}) f\<rparr>))"
proof -
  define v where "v = strip_unsafe u"
  define url3 where "url3 = snd (split_scheme v)"
  define url4 where "url4 = snd (split_authority url3)"
  have v: "CHR ''#'' \<notin> set v"
    using assms strip_unsafe_subset [of u] by (auto simp: v_def)
  then have url3: "CHR ''#'' \<notin> set url3"
    using split_scheme_subset [of v] by (auto simp: url3_def)
  then have url4: "CHR ''#'' \<notin> set url4"
    using split_authority_subset [of url3] by (auto simp: url4_def)
  show ?thesis
    unfolding urlsplit_def strip_unsafe_fragment v_def [symmetric]
      split_scheme_fragment [OF v] url3_def [symmetric] Let_def case_prod_unfold fst_conv snd_conv
      split_authority_fragment [OF url3] url4_def [symmetric]
      split_fragment_append [OF url4]
    by simp
qed

lemma urlparse_fragment:
  assumes "CHR ''#'' \<notin> set u"
  shows "urlparse L (u @ CHR ''#'' # f)
     = (case urlparse L u of
          Inl e \<Rightarrow> Inl e
        | Inr p \<Rightarrow>
            Inr (p\<lparr>fragment := filter (\<lambda>c. (of_char c :: nat) \<notin> {0x09, 0x0D, 0x0A}) f\<rparr>))"
  by (auto simp: urlparse_def urlsplit_fragment [OF assms] case_prod_unfold Let_def
      split: sum.splits)

text \<open>
  A URL that parses and the same URL with a fragment appended have the same normal form:
  \<^verbatim>\<open>normalize_url\<close> reassembles the parsed components with an empty fragment.
\<close>

lemma normalize_url_drops_fragment:
  assumes "CHR ''#'' \<notin> set u" and "urlparse L u = Inr p"
  shows "normalize_url L (u @ CHR ''#'' # f) = normalize_url L u"
  using assms(2)
  by (simp add: normalize_url_def urlparse_fragment [OF assms(1)])

lemma normalize_url_fragment_insensitive:
  assumes "CHR ''#'' \<notin> set u" and "urlparse L u = Inr p"
  shows "normalize_url L (u @ CHR ''#'' # f1) = normalize_url L (u @ CHR ''#'' # f2)"
  by (simp only: normalize_url_drops_fragment [OF assms])

subsection \<open>Cache filenames\<close>

lemma replace_Nil [simp]: "replace old new [] = []"
  by (simp add: replace.simps)

lemma replace_char:
  "replace [a] [b] s = map (\<lambda>c. if c = a then b else c) s"
proof (induction s)
  case Nil
  show ?case by simp
next
  case (Cons x xs)
  then show ?case by (simp add: replace.simps [of "[a]" "[b]" "x # xs"])
qed

lemma get_filename_fresh:
  assumes "map_of m (normalize_url L u) = None"
    and "urlparse L (normalize_url L u) = Inr p"
  shows "get_filename_for_url L m u =
     Inr (spec_filename L (replace ''www.'' '''') (netloc p) (path p),
          AList.update (normalize_url L u)
            (spec_filename L (replace ''www.'' '''') (netloc p) (path p)) m)"
  using assms
  by (simp add: get_filename_for_url_def spec_filename_def spec_safe_char_def replace_char
      Let_def)

lemma get_filename_memo:
  assumes "map_of m (normalize_url L u) = Some f"
  shows "get_filename_for_url L m u = Inr (f, m)"
  using assms by (simp add: get_filename_for_url_def)

text \<open>
  C8 (as stated): the filename is the rule's with a leading \<open>www.\<close> stripped from the
  domain. This is false for a domain that holds \<open>www.\<close> elsewhere:
  \<^verbatim>\<open>https://my.www.example.com/a\<close> gets \<^verbatim>\<open>my.example.com_a.html\<close>.
\<close>

theorem C8_inner_www_removed:
  "map_sum id fst (get_filename_for_url lib0 [] ''https://my.www.example.com/a'')
     \<noteq> spec_filename_for_url lib0 spec_strip_www ''https://my.www.example.com/a''"
  by code_simp

text \<open>
  C8 (amended): for every URL whose normal form parses, and every consistent memo,
  \<^verbatim>\<open>get_filename_for_url\<close> returns the rule's filename with every occurrence of
  \<open>www.\<close> removed from the domain and all trailing slashes removed from the path; it
  leaves a consistent memo, and a second call returns the identical string.
\<close>

theorem C8_filename_rule:
  assumes "memo_ok L m" and "urlparse L (normalize_url L u) = Inr p"
  shows "\<exists>m'. get_filename_for_url L m u
            = Inr (spec_filename L (replace ''www.'' '''') (netloc p) (path p), m')
          \<and> get_filename_for_url L m' u
            = Inr (spec_filename L (replace ''www.'' '''') (netloc p) (path p), m')
          \<and> memo_ok L m'"
proof (cases "map_of m (normalize_url L u)")
  case None
  let ?f = "spec_filename L (replace ''www.'' '''') (netloc p) (path p)"
  let ?m' = "AList.update (normalize_url L u) ?f m"
  have first: "get_filename_for_url L m u = Inr (?f, ?m')"
    using None assms(2) by (rule get_filename_fresh)
  have "map_of ?m' (normalize_url L u) = Some ?f"
    by (simp add: update_conv')
  then have second: "get_filename_for_url L ?m' u = Inr (?f, ?m')"
    by (rule get_filename_memo)
  have "memo_ok L ?m'"
    using assms by (auto simp: memo_ok_def update_conv' spec_filename_for_url_def)
  with first second show ?thesis by blast
next
  case (Some f)
  have "spec_filename_for_url L (replace ''www.'' '''') (normalize_url L u) = Inr f"
    using assms(1) Some by (simp add: memo_ok_def)
  then have f: "f = spec_filename L (replace ''www.'' '''') (netloc p) (path p)"
    using assms(2) by (simp add: spec_filename_for_url_def)
  have "get_filename_for_url L m u = Inr (f, m)"
    using Some by (rule get_filename_memo)
  with f assms(1) show ?thesis by auto
qed

text \<open>
  The hypotheses of C8 hold for the empty memo and \<^verbatim>\<open>https://example.com/a/b/\<close>,
  which maps to \<^verbatim>\<open>example.com_a_b.html\<close>.
\<close>

theorem C8_filename_rule_witness:
  "memo_ok lib0 []
   \<and> urlparse lib0 (normalize_url lib0 ''https://example.com/a/b/'')
       = Inr \<lparr>scheme = ''https'', netloc = ''example.com'', path = ''/a/b/'', params = [],
              query = [], fragment = []\<rparr>
   \<and> get_filename_for_url lib0 [] ''https://example.com/a/b/''
       = Inr (''example.com_a_b.html'',
              [(''https://example.com/a/b/'', ''example.com_a_b.html'')])"
proof -
  have ok: "memo_ok lib0 []" by (simp add: memo_ok_def)
  have p: "urlparse lib0 (normalize_url lib0 ''https://example.com/a/b/'')
       = Inr \<lparr>scheme = ''https'', netloc = ''example.com'', path = ''/a/b/'', params = [],
              query = [], fragment = []\<rparr>"
    by (simp add: url_eval_defs)
  have f: "spec_filename lib0 (replace ''www.'' '''') ''example.com'' ''/a/b/''
      = ''example.com_a_b.html''"
    by code_simp
  have n: "normalize_url lib0 ''https://example.com/a/b/'' = ''https://example.com/a/b/''"
    by (simp add: url_eval_defs)
  from C8_filename_rule [OF ok p] obtain m' where
    "get_filename_for_url lib0 [] ''https://example.com/a/b/'' = Inr (''example.com_a_b.html'', m')"
    by (auto simp: f)
  moreover have "snd (projr (get_filename_for_url lib0 [] ''https://example.com/a/b/''))
      = [(''https://example.com/a/b/'', ''example.com_a_b.html'')]"
    using get_filename_fresh [of "[]" lib0, OF _ p] by (simp add: f n)
  ultimately show ?thesis using ok p by simp
qed

section \<open>Crawler results\<close>

subsection \<open>Failures stay inside \<^verbatim>\<open>process_url\<close>\<close>

text \<open>
  C7: let \<^verbatim>\<open>process_url\<close> handle a valid URL that was not visited. If an external
  call on the way to the page's links raises (the clock, the cache, the fetch, the HTML
  parser, the cache write), then \<^verbatim>\<open>process_url\<close> returns the empty list, the URL is
  marked visited, and its entry in the link structure is the empty list.
\<close>

theorem C7_failure_contained:
  assumes "urlparse L (normalize_url L url0) = Inr p"
    and "scheme p \<noteq> []" and "netloc p \<noteq> []"
    and "normalize_url L url0 \<notin> visited_urls s"
    and "fst (obtain_links L E c (url_to_filename_map s) (normalize_url L url0) (netloc p)) = Inl e"
  shows "fst (process_url L E c s url0 depth) = []
       \<and> map_of (link_structure (snd (process_url L E c s url0 depth))) (normalize_url L url0)
           = Some []
       \<and> normalize_url L url0 \<in> visited_urls (snd (process_url L E c s url0 depth))"
  using assms
  by (auto simp: process_url_def Let_def update_conv' split: prod.splits sum.splits)

text \<open>
  The hypotheses of C7 hold for the seed of the scenario when the fetch raises: the
  result is \<^verbatim>\<open>[]\<close> and the link structure is \<^verbatim>\<open>{seed: []}\<close>.
\<close>

theorem C7_failure_contained_witness:
  "urlparse lib0 (normalize_url lib0 ''http://x.test/'')
     = Inr \<lparr>scheme = ''http'', netloc = ''x.test'', path = ''/'', params = [], query = [],
            fragment = []\<rparr>
   \<and> fst (obtain_links lib0 failing_net scenario_config [] ''http://x.test/'' ''x.test'')
       = Inl (External ''ConnectionError'')
   \<and> fst (process_url lib0 failing_net scenario_config new_crawler_state ''http://x.test/'' 1) = []
   \<and> link_structure
        (snd (process_url lib0 failing_net scenario_config new_crawler_state ''http://x.test/'' 1))
       = [(''http://x.test/'', [])]"
proof -
  have n: "normalize_url lib0 ''http://x.test/'' = ''http://x.test/''"
    by (simp add: url_eval_defs)
  have p: "urlparse lib0 (normalize_url lib0 ''http://x.test/'')
     = Inr \<lparr>scheme = ''http'', netloc = ''x.test'', path = ''/'', params = [], query = [],
            fragment = []\<rparr>"
    unfolding n by (simp add: url_eval_defs)
  have o: "obtain_links lib0 failing_net scenario_config [] ''http://x.test/'' ''x.test''
       = (Inl (External ''ConnectionError''), [])"
    by (simp add: obtain_links_def failing_net_def scenario_config_def save_path_set_def
        fetch_links_and_content_def)
  then have f: "fst (obtain_links lib0 failing_net scenario_config [] ''http://x.test/'' ''x.test'')
       = Inl (External ''ConnectionError'')"
    by simp
  have g: "link_structure
        (snd (process_url lib0 failing_net scenario_config new_crawler_state ''http://x.test/'' 1))
       = [(''http://x.test/'', [])]"
    using p by (simp add: process_url_def n o new_crawler_state_def Let_def)
  have "normalize_url lib0 ''http://x.test/'' \<notin> visited_urls new_crawler_state"
    by (simp add: new_crawler_state_def)
  with C7_failure_contained [of lib0 "''http://x.test/''" _ new_crawler_state failing_net
      scenario_config "External ''ConnectionError''" 1, OF p]
  have "fst (process_url lib0 failing_net scenario_config new_crawler_state ''http://x.test/'' 1)
      = []"
    using f by (simp add: n new_crawler_state_def)
  with p f g show ?thesis by simp
qed

subsection \<open>The depth bound of the scheduler\<close>

lemma select_batch_popped:
  assumes "select_batch c visited q proc batch0 = (batch, q', proc')"
  shows "\<exists>popped new. q = popped @ q' \<and> batch = batch0 @ new \<and> set new \<subseteq> set popped
           \<and> (\<forall>(url, depth) \<in> set new. depth \<le> max_depth c)"
  using assms
proof (induction q arbitrary: proc batch0)
  case Nil
  then show ?case by simp
next
  case (Cons task q)
  obtain url depth where task: "task = (url, depth)" by (cases task)
  show ?case
  proof (cases "int (length batch0) < max_workers c")
    case False
    with Cons.prems have "q' = task # q" and "batch = batch0"
      by (simp_all add: task)
    then show ?thesis by simp
  next
    case room: True
    show ?thesis
    proof (cases "url \<in> visited \<or> url \<in> proc \<or> depth > max_depth c")
      case True
      with Cons.prems room have "select_batch c visited q proc batch0 = (batch, q', proc')"
        by (auto simp: task split: if_splits)
      from Cons.IH [OF this] obtain popped new where
        "q = popped @ q'" "batch = batch0 @ new" "set new \<subseteq> set popped"
        "\<forall>(url, depth) \<in> set new. depth \<le> max_depth c"
        by blast
      then have "task # q = (task # popped) @ q' \<and> batch = batch0 @ new
          \<and> set new \<subseteq> set (task # popped) \<and> (\<forall>(url, depth) \<in> set new. depth \<le> max_depth c)"
        by auto
      then show ?thesis by blast
    next
      case False
      with Cons.prems room
      have "select_batch c visited q (insert url proc) (batch0 @ [task]) = (batch, q', proc')"
        by (auto simp: task split: if_splits)
      from Cons.IH [OF this] obtain popped new where
        "q = popped @ q'" "batch = (batch0 @ [task]) @ new" "set new \<subseteq> set popped"
        "\<forall>(url, depth) \<in> set new. depth \<le> max_depth c"
        by blast
      with False have "task # q = (task # popped) @ q' \<and> batch = batch0 @ (task # new)
          \<and> set (task # new) \<subseteq> set (task # popped)
          \<and> (\<forall>(url, depth) \<in> set (task # new). depth \<le> max_depth c)"
        by (auto simp: task)
      then show ?thesis by blast
    qed
  qed
qed

lemma crawl_iteration_submitted:
  assumes "crawl_iteration c s s'"
    and "\<forall>(url, depth) \<in> set (submitted s). depth \<le> max_depth c"
  shows "\<forall>(url, depth) \<in> set (submitted s'). depth \<le> max_depth c"
  using assms
proof (cases rule: crawl_iteration.cases)
  case (iteration batch q' proc' completed shared')
  from select_batch_popped [OF iteration(3)]
  have "\<forall>(url, depth) \<in> set batch. depth \<le> max_depth c" by auto
  with assms(2) iteration(1) show ?thesis by auto
qed

lemma crawl_reachable_submitted:
  assumes "crawl_reachable L c s"
  shows "\<forall>(url, depth) \<in> set (submitted s). depth \<le> max_depth c"
  using assms
proof (induction rule: crawl_reachable.induct)
  case (start q)
  show ?case by simp
next
  case (step s s')
  from step.hyps(2) step.IH show ?case by (rule crawl_iteration_submitted)
qed

text \<open>
  C6: in every run of \<^verbatim>\<open>crawl\<close>, every task handed to a worker has a depth of at
  most \<^verbatim>\<open>max_depth\<close>. Batch selection only pops: the queue it leaves is a suffix of
  the queue it found, the batch holds popped tasks of depth at most \<^verbatim>\<open>max_depth\<close>
  only, so a popped task of greater depth is gone from the queue and is not dispatched.
\<close>

theorem C6_depth_bound:
  "(crawl_reachable L c s \<longrightarrow> (\<forall>(url, depth) \<in> set (submitted s). depth \<le> max_depth c))
   \<and> (select_batch c visited q proc [] = (batch, q', proc') \<longrightarrow>
        (\<exists>popped. q = popped @ q' \<and> set batch \<subseteq> set popped
           \<and> (\<forall>(url, depth) \<in> set batch. depth \<le> max_depth c)))"
proof
  show "crawl_reachable L c s \<longrightarrow> (\<forall>(url, depth) \<in> set (submitted s). depth \<le> max_depth c)"
    using crawl_reachable_submitted by blast
next
  show "select_batch c visited q proc [] = (batch, q', proc') \<longrightarrow>
        (\<exists>popped. q = popped @ q' \<and> set batch \<subseteq> set popped
           \<and> (\<forall>(url, depth) \<in> set batch. depth \<le> max_depth c))"
  proof
    assume "select_batch c visited q proc [] = (batch, q', proc')"
    from select_batch_popped [OF this] show
      "\<exists>popped. q = popped @ q' \<and> set batch \<subseteq> set popped
         \<and> (\<forall>(url, depth) \<in> set batch. depth \<le> max_depth c)"
      by auto
  qed
qed

text \<open>
  The run of the scenario reaches a state with a dispatched task, and batch selection
  drops a task of depth 3 when \<^verbatim>\<open>max_depth\<close> is 2.
\<close>

theorem C6_depth_bound_witness:
  "crawl_reachable lib0 scenario_config scenario_after_seed
   \<and> list_all (\<lambda>(url, depth). depth \<le> max_depth scenario_config) (submitted scenario_after_seed)
   \<and> select_batch scenario_config {} [(''https://x.test/c'', 3), (''https://x.test/b'', 2)] {} []
       = ([(''https://x.test/b'', 2)], [], {''https://x.test/b''})"
proof -
  let ?seed = "(''https://x.test/'', 1 :: int)"
  let ?s0 = "\<lparr>queue = [?seed], processing = {}, shared = new_crawler_state, submitted = []\<rparr>"
  let ?completed = "[(?seed, Inr [''https://x.test/a'', ''https://x.test/b''])]
      :: ((url \<times> int) \<times> (py_exception + url list)) list"
  have "initial_queue lib0 scenario_config = Inr [?seed]"
    by (simp add: initial_queue_def scenario_config_def url_eval_defs)
  then have r0: "crawl_reachable lib0 scenario_config ?s0"
    by (rule crawl_reachable.start)
  have "crawl_iteration scenario_config ?s0
      \<lparr>queue = [] @ collect_new_urls ?completed,
       processing = {''https://x.test/''} - set (map fst [?seed]),
       shared = shared scenario_after_seed,
       submitted = submitted ?s0 @ [?seed]\<rparr>"
    by (rule crawl_iteration.iteration)
      (simp_all add: scenario_config_def new_crawler_state_def)
  then have "crawl_iteration scenario_config ?s0 scenario_after_seed"
    by (simp add: collect_new_urls_def scenario_after_seed_def)
  with r0 have r1: "crawl_reachable lib0 scenario_config scenario_after_seed"
    by (rule crawl_reachable.step)
  have sel: "select_batch scenario_config {}
      [(''https://x.test/c'', 3), (''https://x.test/b'', 2)] {} []
       = ([(''https://x.test/b'', 2)], [], {''https://x.test/b''})"
    by (simp add: scenario_config_def)
  from C6_depth_bound [of lib0 scenario_config scenario_after_seed] r1
  have "\<forall>(url, depth) \<in> set (submitted scenario_after_seed). depth \<le> max_depth scenario_config"
    by blast
  then have "list_all (\<lambda>(url, depth). depth \<le> max_depth scenario_config)
      (submitted scenario_after_seed)"
    by (simp add: list_all_iff)
  with r1 sel show ?thesis by simp
qed

subsection \<open>At most one fetch per URL\<close>

lemma worker_step_inv:
  assumes "worker_step L s s'" and "pool_inv s"
  shows "pool_inv s'"
  using assms
proof (induction rule: worker_step.induct)
  case (submit s i url0)
  then show ?case by (auto simp: pool_inv_def)
next
  case (reject s i url0)
  then show ?case by (auto simp: pool_inv_def)
next
  case (claim s i url0)
  then show ?case by (auto simp: pool_inv_def)
next
  case (fetch s i url)
  from fetch have c: "claimed_by s url = Some i" by (simp add: pool_inv_def)
  have "url \<notin> snd ` set (fetched s)"
  proof
    assume "url \<in> snd ` set (fetched s)"
    then obtain j where j: "(j, url) \<in> set (fetched s)" by auto
    with fetch.prems have "claimed_by s url = Some j" and "tasks s j = Some Finished"
      by (auto simp: pool_inv_def)
    with c fetch.hyps show False by simp
  qed
  with fetch c show ?case by (auto simp: pool_inv_def)
next
  case (no_fetch s i url)
  then show ?case by (auto simp: pool_inv_def)
qed

lemma pool_reachable_inv:
  assumes "pool_reachable L s"
  shows "pool_inv s"
  using assms
proof (induction rule: pool_reachable.induct)
  case start
  show ?case by (simp add: pool_inv_def empty_pool_def)
next
  case (step s s')
  from step.hyps(2) step.IH show ?case by (rule worker_step_inv)
qed

lemma distinct_count_le_1: "distinct xs \<Longrightarrow> count_list xs x \<le> 1"
  by (induction xs) auto

lemma worker_step_since_visited:
  assumes "worker_step L t t'" and "since_visited u s t"
  shows "since_visited u s t'"
  using assms
proof (induction rule: worker_step.induct)
  case (submit t i url0)
  then show ?case by (auto simp: since_visited_def)
next
  case (reject t i url0)
  then show ?case by (auto simp: since_visited_def)
next
  case (claim t i url0)
  then show ?case by (auto simp: since_visited_def)
next
  case (fetch t i url)
  then show ?case by (auto simp: since_visited_def)
next
  case (no_fetch t i url)
  then show ?case by (auto simp: since_visited_def)
qed

lemma run_since_visited:
  assumes "rtranclp (worker_step L) s s'" and "u \<in> pool_visited s"
  shows "since_visited u s s'"
  using assms
proof (induction rule: rtranclp_induct)
  case base
  then show ?case by (simp add: since_visited_def)
next
  case (step t t')
  from step.hyps(2) step.IH [OF step.prems] show ?case
    by (rule worker_step_since_visited)
qed

text \<open>
  C5: in every run, whatever the interleaving of the workers, \<^verbatim>\<open>requests.get\<close> is
  called at most once for every URL, and only by the task that entered the URL into the
  visited set. Once a URL is in the visited set, a later step fetches it only if it is the
  step of the task that holds the claim on it (the task that entered it): no other task,
  and so no task that starts later, fetches it.
\<close>

theorem C5_at_most_one_fetch:
  "(pool_reachable L s' \<longrightarrow>
      count_list (map snd (fetched s')) u \<le> 1
      \<and> (\<forall>(i, v) \<in> set (fetched s'). claimed_by s' v = Some i \<and> v \<in> pool_visited s'))
   \<and> (rtranclp (worker_step L) s s' \<longrightarrow> u \<in> pool_visited s \<longrightarrow> (i, u) \<in> set (fetched s') \<longrightarrow>
        (i, u) \<in> set (fetched s) \<or> tasks s i = Some (Claimed u))"
proof
  show "pool_reachable L s' \<longrightarrow>
      count_list (map snd (fetched s')) u \<le> 1
      \<and> (\<forall>(i, v) \<in> set (fetched s'). claimed_by s' v = Some i \<and> v \<in> pool_visited s')"
  proof
    assume "pool_reachable L s'"
    then have inv: "pool_inv s'" by (rule pool_reachable_inv)
    then have "distinct (map snd (fetched s'))" by (simp add: pool_inv_def)
    then have "count_list (map snd (fetched s')) u \<le> 1" by (rule distinct_count_le_1)
    moreover from inv
    have "\<forall>(i, v) \<in> set (fetched s'). claimed_by s' v = Some i \<and> v \<in> pool_visited s'"
      by (auto simp: pool_inv_def)
    ultimately show "count_list (map snd (fetched s')) u \<le> 1
      \<and> (\<forall>(i, v) \<in> set (fetched s'). claimed_by s' v = Some i \<and> v \<in> pool_visited s')"
      by simp
  qed
next
  show "rtranclp (worker_step L) s s' \<longrightarrow> u \<in> pool_visited s \<longrightarrow> (i, u) \<in> set (fetched s') \<longrightarrow>
        (i, u) \<in> set (fetched s) \<or> tasks s i = Some (Claimed u)"
    using run_since_visited [of L s s' u] by (auto simp: since_visited_def)
qed

text \<open>
  A run reaches the pool in which one task has claimed the seed, and from there the pool
  in which this task has fetched it: one fetch, made after the seed was entered into the
  visited set, by the task that holds the claim.
\<close>

theorem C5_at_most_one_fetch_witness:
  "pool_reachable lib0 pool_after_fetch
   \<and> rtranclp (worker_step lib0) pool_claimed pool_after_fetch
   \<and> ''http://x.test/'' \<in> pool_visited pool_claimed
   \<and> (0, ''http://x.test/'') \<in> set (fetched pool_after_fetch)
   \<and> tasks pool_claimed 0 = Some (Claimed ''http://x.test/'')
   \<and> count_list (map snd (fetched pool_after_fetch)) ''http://x.test/'' = 1"
proof -
  let ?u = "''http://x.test/''"
  let ?s1 = "empty_pool\<lparr>tasks := (tasks empty_pool)(0 \<mapsto> Pending ?u)\<rparr>"
  let ?s2 = "?s1\<lparr>pool_visited := insert (normalize_url lib0 ?u) (pool_visited ?s1),
      tasks := (tasks ?s1)(0 \<mapsto> Claimed (normalize_url lib0 ?u)),
      claimed_by := (claimed_by ?s1)(normalize_url lib0 ?u \<mapsto> 0)\<rparr>"
  let ?s3 = "?s2\<lparr>tasks := (tasks ?s2)(0 \<mapsto> Finished),
      fetched := fetched ?s2 @ [(0, normalize_url lib0 ?u)]\<rparr>"
  have n: "normalize_url lib0 ?u = ?u"
    by (simp add: url_eval_defs)
  have v: "valid_url lib0 (normalize_url lib0 ?u)"
    unfolding n by (simp add: valid_url_def url_eval_defs)
  have s3: "?s3 = pool_after_fetch"
    by (simp add: n empty_pool_def pool_after_fetch_def)
  have "worker_step lib0 empty_pool ?s1"
    by (rule worker_step.submit) (simp add: empty_pool_def)
  with pool_reachable.start have r1: "pool_reachable lib0 ?s1"
    by (rule pool_reachable.step)
  have "worker_step lib0 ?s1 ?s2"
    by (rule worker_step.claim) (simp_all add: v empty_pool_def)
  with r1 have r2: "pool_reachable lib0 ?s2"
    by (rule pool_reachable.step)
  have "worker_step lib0 ?s2 ?s3"
    by (rule worker_step.fetch) simp
  with r2 have "pool_reachable lib0 ?s3"
    by (rule pool_reachable.step)
  then have r: "pool_reachable lib0 pool_after_fetch"
    by (simp only: s3)
  have "worker_step lib0 pool_claimed
      (pool_claimed\<lparr>tasks := (tasks pool_claimed)(0 \<mapsto> Finished),
         fetched := fetched pool_claimed @ [(0, ?u)]\<rparr>)"
    by (rule worker_step.fetch) (simp add: pool_claimed_def)
  moreover have "pool_claimed\<lparr>tasks := (tasks pool_claimed)(0 \<mapsto> Finished),
         fetched := fetched pool_claimed @ [(0, ?u)]\<rparr> = pool_after_fetch"
    by (simp add: pool_claimed_def pool_after_fetch_def)
  ultimately have "worker_step lib0 pool_claimed pool_after_fetch"
    by simp
  then have run: "rtranclp (worker_step lib0) pool_claimed pool_after_fetch"
    by (rule r_into_rtranclp)
  have vis: "?u \<in> pool_visited pool_claimed"
    by (simp add: pool_claimed_def)
  have log: "(0, ?u) \<in> set (fetched pool_after_fetch)"
    by (simp add: pool_after_fetch_def)
  from C5_at_most_one_fetch [where L = lib0 and s = pool_claimed and s' = pool_after_fetch
      and u = ?u and i = 0] r
  have "count_list (map snd (fetched pool_after_fetch)) ?u \<le> 1"
    by blast
  moreover have "count_list (map snd (fetched pool_after_fetch)) ?u \<noteq> 0"
    by (simp add: pool_after_fetch_def)
  ultimately have one: "count_list (map snd (fetched pool_after_fetch)) ?u = 1"
    by simp
  have "tasks pool_claimed 0 = Some (Claimed ?u)"
    by (simp add: pool_claimed_def)
  with r run vis log one show ?thesis by simp
qed

end
